theory Spec2Isabelle
  imports Main "HOL-Library.Sublist"
begin

section \<open>JavaScript string and array primitives used by the viewer\<close>

text \<open>
  \<open>String.prototype.slice(start, end)\<close> and \<open>Array.prototype.slice\<close>: a negative
  argument counts from the end, every argument is clamped to the range \<open>0..length\<close>, and an
  omitted \<open>end\<close> (here \<open>None\<close>) is the length.
\<close>

definition slice :: "'a list \<Rightarrow> int \<Rightarrow> int option \<Rightarrow> 'a list" where
  "slice s start fin =
     (let n = int (length s);
          from = (if start < 0 then max (n + start) 0 else min start n);
          to = (case fin of None \<Rightarrow> n
                | Some e \<Rightarrow> (if e < 0 then max (n + e) 0 else min e n))
      in take (nat (to - from)) (drop (nat from) s))"

text \<open>\<open>String.prototype.startsWith\<close>.\<close>

definition startsWith :: "string \<Rightarrow> string \<Rightarrow> bool" where
  "startsWith s pat = (take (length pat) s = pat)"

text \<open>\<open>String.prototype.replace\<close> with a string pattern: the first occurrence only.\<close>

fun replace :: "string \<Rightarrow> string \<Rightarrow> string \<Rightarrow> string" where
  "replace [] pat rep = (if pat = [] then rep else [])"
| "replace (c # cs) pat rep =
     (if startsWith (c # cs) pat then rep @ drop (length pat) (c # cs)
      else c # replace cs pat rep)"

text \<open>\<open>Array.prototype.findIndex\<close>, with \<open>None\<close> for \<open>-1\<close>.\<close>

fun findIndex :: "('a \<Rightarrow> bool) \<Rightarrow> 'a list \<Rightarrow> nat option" where
  "findIndex P [] = None"
| "findIndex P (x # xs) =
     (if P x then Some 0 else map_option Suc (findIndex P xs))"

text \<open>
  \<open>Array.prototype.splice(start, 1)\<close>: a negative \<open>start\<close> counts from the end and is
  clamped at 0, a \<open>start\<close> beyond the end is clamped to the length (then nothing is
  removed).
\<close>

definition splice1 :: "'a list \<Rightarrow> int \<Rightarrow> 'a list" where
  "splice1 xs start =
     (let n = int (length xs);
          from = nat (if start < 0 then max (n + start) 0 else min start n)
      in take from xs @ drop (Suc from) xs)"

text \<open>Decimal rendering of a non-negative integer, as a template literal does.\<close>

definition digit :: "nat \<Rightarrow> char" where
  "digit d = char_of (48 + d)"

fun show_nat :: "nat \<Rightarrow> string" where
  "show_nat n = (if n < 10 then [digit n] else show_nat (n div 10) @ [digit (n mod 10)])"

declare show_nat.simps [simp del]

section \<open>Path\<close>

type_synonym Id = string

text \<open>
  A \<open>Path\<close> wraps the string of concatenated move identifiers; a character of the
  model stands for one code unit of the source string. The method names of the class
  carry the prefix \<open>Path_\<close>.
\<close>

datatype Path = Path (path: string)

definition Path_head :: "Path \<Rightarrow> Id" where
  "Path_head p = slice (path p) 0 (Some 2)"

definition Path_tail :: "Path \<Rightarrow> Path" where
  "Path_tail p = Path (slice (path p) 2 None)"

definition Path_init :: "Path \<Rightarrow> Path" where
  "Path_init p = Path (slice (path p) 0 (Some (- 2)))"

definition Path_last :: "Path \<Rightarrow> Id" where
  "Path_last p = slice (path p) (- 2) None"

definition Path_empty :: "Path \<Rightarrow> bool" where
  "Path_empty p = (path p = [])"

definition Path_contains :: "Path \<Rightarrow> Path \<Rightarrow> bool" where
  "Path_contains p other = startsWith (path p) (path other)"

definition Path_append :: "Path \<Rightarrow> Id \<Rightarrow> Path" where
  "Path_append p i = Path (path p @ i)"

definition Path_equals :: "Path \<Rightarrow> Path \<Rightarrow> bool" where
  "Path_equals p other = (path p = path other)"

definition Path_root :: Path where
  "Path_root = Path []"

text \<open>The free functions \<open>head\<close> and \<open>tail\<close> on path strings.\<close>

definition head :: "string \<Rightarrow> string" where
  "head p = slice p 0 (Some 2)"

definition tail :: "string \<Rightarrow> string" where
  "tail p = slice p 2 None"

section \<open>Move data, nodes, games\<close>

text \<open>
  \<open>MoveData\<close> with the fields that the operations below read or write. The fields
  \<open>move\<close>, \<open>turn\<close>, \<open>check\<close>, \<open>shapes\<close>, \<open>clocks\<close> and \<open>emt\<close> are carried along
  unchanged by every operation modelled here and are left out. \<open>id\<close> is optional in the
  source (\<open>id?: string\<close>); \<open>ply\<close> is a count of half-moves and \<open>nags\<close> are the numeric
  annotation codes, both natural numbers.

  A data object is shared: the node of the tree and the cached mainline of the game hold
  the same object. \<open>obj\<close> is the identity of the object (its address). Two data values
  of one state with the same \<open>obj\<close> stand for the same object and carry the same fields;
  a write in place to an object changes every one of them (\<open>writeCached\<close> below), and a
  new object gets an address that no other object has (\<open>newObj\<close> below).
\<close>

record MoveData =
  obj :: nat
  path_m :: Path
  ply :: nat
  id_m :: "Id option"
  san :: string
  uci :: string
  fen :: string
  comments :: "string list"
  startingComments :: "string list"
  nags :: "nat list"

text \<open>
  A node of the move tree: the root carries no \<open>data\<close>, a child node does
  (\<open>MoveNode = { children: MoveNode[]; data?: ChessMove }\<close>). The tree is a value here;
  the source mutates node objects in place, and each in-place write through a reference
  that was obtained by a lookup becomes a rebuild of the tree at the place the lookup
  reached (\<open>writeAtPathFrom\<close> below). A node that is passed to \<open>addNode\<close> is taken
  to be an object of its own, not one that is already part of the tree, and the
  addresses of its data objects are those of no other object.
\<close>

datatype Node = Node (data: "MoveData option") (children: "Node list")

text \<open>\<open>child.data?.id\<close> and \<open>node?.data?.ply || 0\<close>.\<close>

definition data_id :: "Node \<Rightarrow> Id option" where
  "data_id n = (case data n of None \<Rightarrow> None | Some d \<Rightarrow> id_m d)"

definition data_ply :: "Node \<Rightarrow> nat" where
  "data_ply n = (case data n of None \<Rightarrow> 0 | Some d \<Rightarrow> ply d)"

text \<open>
  Modelled from the spec: the methods \<open>mainline()\<close> and \<open>end()\<close> of the node class, which
  the repository imports from its PGN library; only their declarations are in the
  sources. \<open>mainline()\<close> yields the data of the nodes reached by always descending into the
  first child, from the root to a childless node; \<open>end()\<close> is the last node of that chain
  (the node itself when it has no child).
\<close>

fun Node_mainline :: "Node \<Rightarrow> MoveData option list" where
  "Node_mainline (Node d []) = []"
| "Node_mainline (Node d (c # cs)) = data c # Node_mainline c"

fun Node_end :: "Node \<Rightarrow> Node" where
  "Node_end (Node d []) = Node d []"
| "Node_end (Node d (c # cs)) = Node_end c"

definition childById :: "Node \<Rightarrow> string \<Rightarrow> Node option" where
  "childById node i = find (\<lambda>child. data_id child = Some i) (children node)"

function nodeAtPathFrom :: "Node \<Rightarrow> Path \<Rightarrow> Node option" where
  "nodeAtPathFrom node p =
     (if Path_empty p then Some node
      else (case childById node (Path_head p) of
              None \<Rightarrow> None
            | Some child \<Rightarrow> nodeAtPathFrom child (Path_tail p)))"
  by pat_completeness auto
termination
  by (relation "measure (\<lambda>(node, p). length (path p))")
     (auto simp: Path_empty_def Path_tail_def slice_def Let_def)

declare nodeAtPathFrom.simps [simp del]

record Metadata =
  result :: "string option"
  comment :: "string option"

text \<open>
  A game: the tree, the metadata and the cached \<open>mainline\<close>. The cache holds the data
  objects of the mainline nodes, taken once by the constructor: the same objects as the
  nodes of the tree hold, so that a later write in place to the data of a node is seen
  in the cache too. The fields \<open>initial\<close> and \<open>players\<close> are not read by the operations
  modelled here.
\<close>

record Game =
  moves :: Node
  metadata :: Metadata
  mainline :: "MoveData option list"

definition Game_constructor :: "Node \<Rightarrow> Metadata \<Rightarrow> Game" where
  "Game_constructor ms md = \<lparr>moves = ms, metadata = md, mainline = Node_mainline ms\<rparr>"

definition nodeAt :: "Game \<Rightarrow> Path \<Rightarrow> Node option" where
  "nodeAt g p = nodeAtPathFrom (moves g) p"

text \<open>The argument type \<open>Ply | "last"\<close>, a ply being an integer.\<close>

datatype PlyArg = Ply int | Ply_last

text \<open>
  \<open>entry?.path || Path.root\<close> for an entry of the cached mainline; a \<open>Path\<close> object is
  truthy, so the root is taken only when the entry or its path is missing.
\<close>

definition pathOrRoot :: "MoveData option \<Rightarrow> Path" where
  "pathOrRoot entry = (case entry of None \<Rightarrow> Path_root | Some d \<Rightarrow> path_m d)"

definition pathAtMainlinePly :: "Game \<Rightarrow> PlyArg \<Rightarrow> Path" where
  "pathAtMainlinePly g a =
     (if a = Ply 0 then Path_root
      else
        (let n = int (length (mainline g));
             i = max 0 (min (n - 1) (case a of Ply_last \<Rightarrow> 9999 | Ply k \<Rightarrow> k - 1))
         in if i < n
            then pathOrRoot (mainline g ! nat i)
            else Path_root))"

section \<open>The viewer\<close>

datatype GoTo = To_first | To_prev | To_next | To_last

datatype error = TypeError

text \<open>A value that may be \<open>null\<close> or \<open>undefined\<close>.\<close>

datatype 'a nullable = Null | Undefined | Defined 'a

record PgnViewer =
  game :: Game
  path_v :: Path
  flipped :: bool
  pane :: string
  autoScrollRequested :: bool
  autoplay :: bool

text \<open>
  The constructor, after \<open>makeGame\<close> has parsed the text into a game (the parser is
  external): \<open>initialPly\<close> is optional, and \<open>0\<close> is falsy.
\<close>

definition PgnViewer_constructor :: "Game \<Rightarrow> PlyArg option \<Rightarrow> PgnViewer" where
  "PgnViewer_constructor g initialPly =
     \<lparr>game = g,
      path_v = (case initialPly of
                  None \<Rightarrow> Path_root
                | Some a \<Rightarrow> (if a = Ply 0 then Path_root else pathAtMainlinePly g a)),
      flipped = False, pane = ''board'', autoScrollRequested = False, autoplay = False\<rparr>"

function nodeAtPathOrNullFrom :: "Node \<Rightarrow> string \<Rightarrow> Node option" where
  "nodeAtPathOrNullFrom node p =
     (if p = [] then Some node
      else (case childById node (head p) of
              None \<Rightarrow> None
            | Some child \<Rightarrow> nodeAtPathOrNullFrom child (tail p)))"
  by pat_completeness auto
termination
  by (relation "measure (\<lambda>(node, p). length p)")
     (auto simp: tail_def slice_def Let_def)

declare nodeAtPathOrNullFrom.simps [simp del]

definition nodeAtPathOrNull :: "PgnViewer \<Rightarrow> string \<Rightarrow> Node option" where
  "nodeAtPathOrNull v p = nodeAtPathOrNullFrom (moves (game v)) p"

text \<open>
  An in-place write to the node object that \<open>nodeAtPathOrNullFrom\<close> returns: the tree is
  rebuilt along the route of the lookup (at each step the first child with the identifier)
  with \<open>f\<close> applied to the node reached; \<open>None\<close> when the lookup fails.
\<close>

function writeAtPathFrom :: "Node \<Rightarrow> string \<Rightarrow> (Node \<Rightarrow> Node) \<Rightarrow> Node option" where
  "writeAtPathFrom node p f =
     (if p = [] then Some (f node)
      else (case findIndex (\<lambda>child. data_id child = Some (head p)) (children node) of
              None \<Rightarrow> None
            | Some k \<Rightarrow>
                (case writeAtPathFrom (children node ! k) (tail p) f of
                   None \<Rightarrow> None
                 | Some child' \<Rightarrow> Some (Node (data node) ((children node)[k := child'])))))"
  by pat_completeness auto
termination
  by (relation "measure (\<lambda>(node, p, f). length p)")
     (auto simp: tail_def slice_def Let_def)

declare writeAtPathFrom.simps [simp del]

definition set_moves :: "PgnViewer \<Rightarrow> Node \<Rightarrow> PgnViewer" where
  "set_moves v t = v\<lparr>game := (game v)\<lparr>moves := t\<rparr>\<rparr>"

definition updateAt :: "PgnViewer \<Rightarrow> string \<Rightarrow> (Node \<Rightarrow> Node) \<Rightarrow> Node option \<times> PgnViewer" where
  "updateAt v parentPath update =
     (case nodeAtPathOrNull v parentPath of
        None \<Rightarrow> (None, v)
      | Some node \<Rightarrow>
          (case writeAtPathFrom (moves (game v)) parentPath update of
             None \<Rightarrow> (None, v)
           | Some t \<Rightarrow> (Some (update node), set_moves v t)))"

definition curNode :: "PgnViewer \<Rightarrow> Node" where
  "curNode v = (case nodeAt (game v) (path_v v) of None \<Rightarrow> moves (game v) | Some n \<Rightarrow> n)"

definition canGoTo :: "PgnViewer \<Rightarrow> GoTo \<Rightarrow> bool" where
  "canGoTo v to =
     (if to = To_prev \<or> to = To_first then \<not> Path_empty (path_v v)
      else (case children (curNode v) of [] \<Rightarrow> False | c # cs \<Rightarrow> True))"

text \<open>
  \<open>toPath\<close>, without the redrawing of the board and the focus, which are outside the
  model.
\<close>

definition toPath :: "PgnViewer \<Rightarrow> Path \<Rightarrow> PgnViewer" where
  "toPath v p = v\<lparr>path_v := p, pane := ''board'', autoScrollRequested := True\<rparr>"

subsection \<open>Inserting and deleting nodes\<close>

definition addNode :: "PgnViewer \<Rightarrow> Node \<Rightarrow> string \<Rightarrow> string option \<times> PgnViewer" where
  "addNode v node parentPath =
     (let newPath = parentPath @ (case data_id node of None \<Rightarrow> [] | Some i \<Rightarrow> i)
      in case nodeAtPathOrNull v newPath of
           Some existing \<Rightarrow> (Some newPath, v)
         | None \<Rightarrow>
             (case updateAt v parentPath (\<lambda>parent. Node (data parent) (children parent @ [node])) of
                (None, v') \<Rightarrow> (None, v')
              | (Some updated, v') \<Rightarrow> (Some newPath, v')))"

text \<open>
  \<open>addNodes\<close>: \<open>nodes[0]\<close> is \<open>undefined\<close> exactly for the empty array; the test
  \<open>newPath ? ... : undefined\<close> is on the truthiness of a string, so the empty string stops
  the recursion as \<open>undefined\<close> does.
\<close>

fun addNodes :: "PgnViewer \<Rightarrow> Node list \<Rightarrow> string \<Rightarrow> string option \<times> PgnViewer" where
  "addNodes v [] p = (Some p, v)"
| "addNodes v (node # rest) p =
     (case addNode v node p of
        (None, v') \<Rightarrow> (None, v')
      | (Some newPath, v') \<Rightarrow> (if newPath = [] then (None, v') else addNodes v' rest newPath))"

text \<open>
  \<open>mainline[mainline.length - 1]\<close>: \<open>undefined\<close> for the empty array, else the last
  entry (the data of a node, which the node type allows to be missing).
\<close>

definition lastOf :: "'a option list \<Rightarrow> 'a nullable" where
  "lastOf xs =
     (case xs of [] \<Rightarrow> Undefined
      | y # ys \<Rightarrow> (case last xs of None \<Rightarrow> Undefined | Some d \<Rightarrow> Defined d))"

definition deleteNode :: "PgnViewer \<Rightarrow> string \<Rightarrow> MoveData nullable \<times> PgnViewer" where
  "deleteNode v nodePath =
     (let parentId = slice nodePath 0 (Some (- 2));
          nodeId = slice nodePath (- 2) None
      in case nodeAtPathOrNull v parentId of
           None \<Rightarrow> (Null, v)
         | Some parentNode \<Rightarrow>
             (case findIndex (\<lambda>child. data_id child = Some nodeId) (children parentNode) of
                None \<Rightarrow> (Null, v)
              | Some index \<Rightarrow>
                  (case writeAtPathFrom (moves (game v)) parentId
                          (\<lambda>n. Node (data n) (splice1 (children n) (int index))) of
                     None \<Rightarrow> (Null, v)
                   | Some t \<Rightarrow> (lastOf (Node_mainline t), set_moves v t))))"

subsection \<open>Data objects shared with the cached mainline\<close>

text \<open>The addresses of the data objects of a tree and of a cached mainline.\<close>

fun objsOf :: "Node \<Rightarrow> nat list" where
  "objsOf (Node d cs) =
     (case d of None \<Rightarrow> [] | Some m \<Rightarrow> [obj m]) @ concat (map objsOf cs)"

definition objsOfData :: "MoveData option list \<Rightarrow> nat list" where
  "objsOfData es = concat (map (\<lambda>e. case e of None \<Rightarrow> [] | Some m \<Rightarrow> [obj m]) es)"

text \<open>The address of a new object: one that no object of the tree or of the cache has.\<close>

definition newObj :: "PgnViewer \<Rightarrow> nat" where
  "newObj v = Suc (fold max (objsOf (moves (game v)) @ objsOfData (mainline (game v))) 0)"

text \<open>
  The effect on the cached mainline of a write \<open>f\<close> in place to the data objects with the
  addresses \<open>as\<close>: the cached objects among them are written, the others are not.
\<close>

definition writeCached ::
  "nat list \<Rightarrow> (MoveData \<Rightarrow> MoveData) \<Rightarrow> MoveData option list \<Rightarrow> MoveData option list" where
  "writeCached as f es = map (map_option (\<lambda>m. if obj m \<in> set as then f m else m)) es"

subsection \<open>Comments\<close>

definition set_comments :: "string list \<Rightarrow> Node \<Rightarrow> Node" where
  "set_comments cs n = Node (map_option (\<lambda>d. d\<lparr>comments := cs\<rparr>) (data n)) (children n)"

text \<open>
  A write in place to the comment array of the data object \<open>d\<close> of the node at the path
  \<open>p\<close> (\<open>push\<close>, \<open>splice\<close>, an assignment to an element): the node of the tree and the
  cached object with the address of \<open>d\<close> get the comments \<open>cs\<close>.
\<close>

definition writeComments :: "PgnViewer \<Rightarrow> string \<Rightarrow> MoveData \<Rightarrow> string list \<Rightarrow> PgnViewer" where
  "writeComments v p d cs =
     (case writeAtPathFrom (moves (game v)) p (set_comments cs) of
        None \<Rightarrow> v
      | Some t \<Rightarrow>
          v\<lparr>game := (game v)
                 \<lparr>moves := t,
                  mainline := writeCached [obj d] (\<lambda>m. m\<lparr>comments := cs\<rparr>) (mainline (game v))\<rparr>\<rparr>)"

definition addComment :: "PgnViewer \<Rightarrow> string \<Rightarrow> string \<Rightarrow> PgnViewer" where
  "addComment v p c =
     (case nodeAtPathOrNull v p of
        None \<Rightarrow> v
      | Some node \<Rightarrow>
          (case data node of
             None \<Rightarrow> v
           | Some d \<Rightarrow> writeComments v p d (comments d @ [c])))"

definition deleteComment :: "PgnViewer \<Rightarrow> string \<Rightarrow> int \<Rightarrow> PgnViewer" where
  "deleteComment v p index =
     (case nodeAtPathOrNull v p of
        None \<Rightarrow> v
      | Some node \<Rightarrow>
          (case data node of
             None \<Rightarrow> v
           | Some d \<Rightarrow>
               (if index < int (length (comments d))
                then writeComments v p d (splice1 (comments d) index)
                else v)))"

text \<open>
  \<open>comments[index] = newComment\<close> with a negative \<open>index\<close> sets a property of the array
  object that is no element of it: the list of comments stays as it is, and the model
  writes nothing.
\<close>

definition editComment :: "PgnViewer \<Rightarrow> string \<Rightarrow> int \<Rightarrow> string \<Rightarrow> PgnViewer" where
  "editComment v p index newComment =
     (case nodeAtPathOrNull v p of
        None \<Rightarrow> v
      | Some node \<Rightarrow>
          (case data node of
             None \<Rightarrow> v
           | Some d \<Rightarrow>
               (if index < int (length (comments d))
                then (if 0 \<le> index
                      then writeComments v p d ((comments d)[nat index := newComment])
                      else v)
                else v)))"

subsection \<open>Promoting a variation\<close>

text \<open>
  The write through \<open>lastNodeToAddComment\<close>: the node is the end of the first-child
  chain; its data object is replaced by a copy with other comments.
\<close>

fun update_end :: "(MoveData \<Rightarrow> MoveData) \<Rightarrow> Node \<Rightarrow> Node" where
  "update_end f (Node d []) = Node (map_option f d) []"
| "update_end f (Node d (c # cs)) = Node d (update_end f c # cs)"

text \<open>The local function \<open>findLastNode\<close>.\<close>

fun findLastNode :: "Node \<Rightarrow> Node" where
  "findLastNode (Node d []) = Node d []"
| "findLastNode (Node d (c # cs)) = findLastNode c"

text \<open>\<open>node.comments = []\<close> for the data of every node of the mainline.\<close>

fun clearComments_chain :: "Node \<Rightarrow> Node" where
  "clearComments_chain (Node d []) = Node (map_option (\<lambda>m. m\<lparr>comments := []\<rparr>) d) []"
| "clearComments_chain (Node d (c # cs)) =
     Node (map_option (\<lambda>m. m\<lparr>comments := []\<rparr>) d) (clearComments_chain c # cs)"

definition clearMainlineComments :: "Node \<Rightarrow> Node" where
  "clearMainlineComments root =
     (case children root of [] \<Rightarrow> root
      | c # cs \<Rightarrow> Node (data root) (clearComments_chain c # cs))"

text \<open>\<open>splice(variationIndex, 1)\<close> followed by \<open>unshift\<close> of the removed node.\<close>

definition moveToFront :: "nat \<Rightarrow> Node \<Rightarrow> Node" where
  "moveToFront k n =
     Node (data n) (children n ! k # (take k (children n) @ drop (Suc k) (children n)))"

text \<open>A string is truthy when it is present and not empty.\<close>

definition truthy :: "string option \<Rightarrow> bool" where
  "truthy s = (case s of None \<Rightarrow> False | Some x \<Rightarrow> x \<noteq> [])"

text \<open>
  \<open>promoteVariation\<close>. The source takes the reference \<open>lastNodeToAddComment\<close> first,
  reorders the children of the parent, and afterwards replaces the data of
  \<open>lastNodeToAddComment\<close>. The reordering changes the order of one child list and no
  data, and the replaced data keeps its identifier, so the two writes touch different
  fields and the tree that results is the same in either order. In the tree model the
  node behind the reference is the end of the first-child chain of the tree as it was
  before the reordering, so the model writes the comment there (\<open>update_end\<close>) and then
  reorders. The data with the added comment is a new object (\<open>{...data, comments}\<close>):
  the node gets it, and the cached mainline keeps the old object with its old comments.
  Reading \<open>removedNode.data.id\<close> of a node without data raises a TypeError
  after the reordering and before any other write. The comment found by
  \<open>find(startsWith('Result:'))\<close> is not empty, so the test \<open>if (newMainlineResult)\<close> is
  the test that one was found. At the end \<open>node.comments = []\<close> is a write in place to the
  data objects of the new mainline: it empties the comments of these nodes of the tree
  and of those cached objects that are among them.
\<close>

definition promoteVariation :: "PgnViewer \<Rightarrow> string \<Rightarrow> error option \<times> PgnViewer" where
  "promoteVariation v variationPath =
     (let lastNodeToAddComment = Node_end (moves (game v))
      in case nodeAtPathOrNull v variationPath of
           None \<Rightarrow> (None, v)
         | Some variationNode \<Rightarrow>
        (case data variationNode of
           None \<Rightarrow> (None, v)
         | Some vdata \<Rightarrow>
        (let parentPath = slice variationPath 0 (Some (- 2))
         in case nodeAtPathOrNull v parentPath of
              None \<Rightarrow> (None, v)
            | Some parentNode \<Rightarrow>
        (case findIndex (\<lambda>child. data_id child = id_m vdata) (children parentNode) of
           None \<Rightarrow> (None, v)
         | Some variationIndex \<Rightarrow>
        (case data (children parentNode ! variationIndex) of
           None \<Rightarrow>
             (case writeAtPathFrom (moves (game v)) parentPath (moveToFront variationIndex) of
                None \<Rightarrow> (Some TypeError, v)
              | Some t \<Rightarrow> (Some TypeError, set_moves v t))
         | Some rdata \<Rightarrow>
        (let newPath = Path (parentPath @ (case id_m rdata of None \<Rightarrow> ''undefined'' | Some i \<Rightarrow> i));
             mainlineResult = result (metadata (game v));
             write = (truthy mainlineResult \<and> data lastNodeToAddComment \<noteq> None);
             t0 = (if write
                   then update_end
                          (\<lambda>d. d\<lparr>comments := comments d @ [''Result: '' @ the mainlineResult],
                                 obj := newObj v\<rparr>)
                          (moves (game v))
                   else moves (game v));
             result1 = (if write then Some ''*'' else mainlineResult)
         in case writeAtPathFrom t0 parentPath (moveToFront variationIndex) of
              None \<Rightarrow> (None, v)
            | Some t1 \<Rightarrow>
        (case nodeAtPathOrNullFrom t1 parentPath of
           None \<Rightarrow> (None, v)
         | Some parentNode1 \<Rightarrow>
        (case children parentNode1 of
           [] \<Rightarrow> (None, v)
         | removedNode # others \<Rightarrow>
        (let newMainlineLastNode = findLastNode removedNode;
             newMainlineResult =
               (case data newMainlineLastNode of
                  None \<Rightarrow> None
                | Some d \<Rightarrow> find (\<lambda>c. startsWith c ''Result:'') (comments d));
             result2 = (case newMainlineResult of
                          None \<Rightarrow> result1
                        | Some c \<Rightarrow> Some (replace c ''Result: '' []));
             mainlineNodes = Node_mainline t1;
             t2 = clearMainlineComments t1
         in (None,
             v\<lparr>path_v := newPath,
               game := (game v)
                 \<lparr>moves := t2,
                  metadata := (metadata (game v))\<lparr>result := result2\<rparr>,
                  mainline := writeCached (objsOfData mainlineNodes) (\<lambda>m. m\<lparr>comments := []\<rparr>)
                                (mainline (game v))\<rparr>\<rparr>))))))))))"

section \<open>The serializer\<close>

definition join :: "string \<Rightarrow> string list \<Rightarrow> string" where
  "join sep xs = (case xs of [] \<Rightarrow> [] | y # ys \<Rightarrow> y @ concat (map (\<lambda>z. sep @ z) ys))"

definition plyPrefix :: "Node \<Rightarrow> string" where
  "plyPrefix node =
     show_nat ((data_ply node + 1) div 2) @
     (if data_ply node mod 2 = 1 then ''. '' else ''... '')"

definition formatNags :: "nat list \<Rightarrow> string" where
  "formatNags ns = join '' '' (map (\<lambda>nag. ''$'' @ show_nat nag) ns)"

text \<open>
  The text of the first child: optional prefix, \<open>first.data?.san\<close> (which a template
  renders as \<open>undefined\<close> when there is no data), the codes and the comments.
\<close>

definition firstText :: "bool \<Rightarrow> Node \<Rightarrow> string" where
  "firstText forcePly first =
     (if forcePly \<or> data_ply first mod 2 = 1 then plyPrefix first else []) @
     (case data first of None \<Rightarrow> ''undefined'' | Some d \<Rightarrow> san d) @
     (case data first of None \<Rightarrow> []
      | Some d \<Rightarrow> (if nags d \<noteq> [] then '' '' @ formatNags (nags d) else [])) @
     (case data first of None \<Rightarrow> []
      | Some d \<Rightarrow> concat (map (\<lambda>c. '' { '' @ c @ '' } '') (comments d)))"

text \<open>
  The text that opens a variation, from the opening parenthesis to the comments of the
  child; \<open>child.data!.san\<close> needs the data of the child.
\<close>

definition variationOpen :: "Node \<Rightarrow> MoveData \<Rightarrow> string" where
  "variationOpen child d =
     '' ('' @ plyPrefix child @ san d @
     (if nags d \<noteq> [] then '' '' @ formatNags (nags d) else []) @
     join [] (map (\<lambda>c. ''{'' @ c @ ''} '') (comments d))"

text \<open>
  \<open>exportNode\<close>; \<open>exportVariations\<close> is its loop over the children from index 1, with the
  text so far as accumulator. A variation child without data raises a TypeError.
\<close>

fun exportNode :: "Node \<Rightarrow> bool \<Rightarrow> error + string"
  and exportVariations :: "Node list \<Rightarrow> string \<Rightarrow> error + string" where
  "exportNode (Node d []) forcePly = Inr []"
| "exportNode (Node d (first # rest)) forcePly =
     (case exportVariations rest (firstText forcePly first) of
        Inl e \<Rightarrow> Inl e
      | Inr s \<Rightarrow>
          (case exportNode first (rest \<noteq> []) of
             Inl e \<Rightarrow> Inl e
           | Inr ml \<Rightarrow> Inr (if ml \<noteq> [] then s @ '' '' @ ml else s)))"
| "exportVariations [] s = Inr s"
| "exportVariations (child # rest) s =
     (case data child of
        None \<Rightarrow> Inl TypeError
      | Some d \<Rightarrow>
          (case exportNode child False of
             Inl e \<Rightarrow> Inl e
           | Inr variation \<Rightarrow>
               exportVariations rest
                 (s @ variationOpen child d @
                  (if variation \<noteq> [] then '' '' @ variation else []) @ '')'')))"

text \<open>
  Every child node below a node has data, as the type \<open>ChildNode\<close> of a tree built by
  the parser requires.
\<close>

fun all_children_have_data :: "Node \<Rightarrow> bool" where
  "all_children_have_data (Node d cs) =
     (\<forall>c \<in> set cs. data c \<noteq> None \<and> all_children_have_data c)"

text \<open>
  The text of one variation as \<open>exportNode\<close> writes it: a space and the opening
  parenthesis, the move-number prefix of the child, its notation, codes and comments,
  then (after a space, when it is not empty) the subtree of the child serialized by
  \<open>exportNode(child, false)\<close>, then the closing parenthesis.
\<close>

definition variationText :: "Node \<Rightarrow> string" where
  "variationText child =
     (case data child of
        None \<Rightarrow> []
      | Some d \<Rightarrow>
          variationOpen child d @
          (case exportNode child False of
             Inl e \<Rightarrow> []
           | Inr variation \<Rightarrow> (if variation \<noteq> [] then '' '' @ variation else [])) @
          '')'')"

text \<open>
  The path \<open>p\<close> leads from the node along first children only: the nodes it passes are on
  the mainline below the node.
\<close>

function firstChildRoute :: "Node \<Rightarrow> string \<Rightarrow> bool" where
  "firstChildRoute node p =
     (if p = [] then True
      else (case children node of
              [] \<Rightarrow> False
            | c # cs \<Rightarrow> data_id c = Some (head p) \<and> firstChildRoute c (tail p)))"
  by pat_completeness auto
termination
  by (relation "measure (\<lambda>(node, p). length p)")
     (auto simp: tail_def slice_def Let_def)

declare firstChildRoute.simps [simp del]

text \<open>A value that may be missing, as a value that may be \<open>undefined\<close>.\<close>

definition ofOption :: "'a option \<Rightarrow> 'a nullable" where
  "ofOption x = (case x of None \<Rightarrow> Undefined | Some y \<Rightarrow> Defined y)"

section \<open>Example games\<close>

text \<open>A data object with the address \<open>a\<close>, without comments and codes.\<close>

definition mkData :: "nat \<Rightarrow> Id \<Rightarrow> string \<Rightarrow> nat \<Rightarrow> string \<Rightarrow> string \<Rightarrow> MoveData" where
  "mkData a i p n s u =
     \<lparr>obj = a, path_m = Path p, ply = n, id_m = Some i, san = s, uci = u, fen = [],
      comments = [], startingComments = [], nags = []\<rparr>"

text \<open>Mainline 1.e4 e5 2.Nf3 with the variation 1.e4 c5, result 1-0.\<close>

definition nf3_node :: Node where
  "nf3_node = Node (Some (mkData 3 ''N3'' ''e4e5N3'' 3 ''Nf3'' ''g1f3'')) []"

definition e5_node :: Node where
  "e5_node = Node (Some (mkData 2 ''e5'' ''e4e5'' 2 ''e5'' ''e7e5'')) [nf3_node]"

definition c5_node :: Node where
  "c5_node = Node (Some (mkData 4 ''c5'' ''e4c5'' 2 ''c5'' ''c7c5'')) []"

definition e4_node :: Node where
  "e4_node = Node (Some (mkData 1 ''e4'' ''e4'' 1 ''e4'' ''e2e4'')) [e5_node, c5_node]"

definition sicilian_root :: Node where
  "sicilian_root = Node None [e4_node]"

definition sicilian_viewer :: PgnViewer where
  "sicilian_viewer =
     PgnViewer_constructor
       (Game_constructor sicilian_root \<lparr>result = Some ''1-0'', comment = None\<rparr>) None"

text \<open>A first move 1.d4 that the example tree does not have.\<close>

definition d4_node :: Node where
  "d4_node = Node (Some (mkData 11 ''d4'' ''d4'' 1 ''d4'' ''d2d4'')) []"

text \<open>
  Two nodes for a sequence whose second insert fails: the identifier of the first has
  three characters, so the path that its insert returns does not resolve.
\<close>

definition abc_node :: Node where
  "abc_node = Node (Some (mkData 12 ''abc'' ''abc'' 1 ''a3'' ''a2a3'')) []"

definition de_node :: Node where
  "de_node = Node (Some (mkData 13 ''de'' ''abcde'' 2 ''a6'' ''a7a6'')) []"

text \<open>
  The paths of the mainline agree with the tree: every node of the first-child chain has
  data with a two-character identifier, and its \<open>path\<close> is the path of its parent
  (\<open>pre\<close>) followed by its identifier, as \<open>makeMoves\<close> builds them.
\<close>

fun mainline_paths_ok :: "string \<Rightarrow> Node \<Rightarrow> bool" where
  "mainline_paths_ok pre (Node d []) = True"
| "mainline_paths_ok pre (Node d (c # cs)) =
     (case data c of
        None \<Rightarrow> False
      | Some m \<Rightarrow>
          (case id_m m of
             None \<Rightarrow> False
           | Some i \<Rightarrow>
               length i = 2 \<and> path_m m = Path (pre @ i) \<and> mainline_paths_ok (pre @ i) c))"

text \<open>
  A line without variations of \<open>n\<close> moves below the path \<open>pre\<close>, every move with the
  identifier \<open>aa\<close>; \<open>long_game\<close> has 10001 moves.
\<close>

fun line_below :: "nat \<Rightarrow> string \<Rightarrow> Node list" where
  "line_below 0 pre = []"
| "line_below (Suc n) pre =
     [Node (Some (mkData (length pre div 2 + 1) ''aa'' (pre @ ''aa'') (length pre div 2 + 1) ''Nf3'' ''g1f3''))
        (line_below n (pre @ ''aa''))]"

text \<open>The path of the \<open>n\<close>-th move of such a line.\<close>

fun repeated_aa :: "nat \<Rightarrow> string" where
  "repeated_aa 0 = []"
| "repeated_aa (Suc n) = ''aa'' @ repeated_aa n"

definition long_game :: Game where
  "long_game = Game_constructor (Node None (line_below 10001 [])) \<lparr>result = None, comment = None\<rparr>"

text \<open>The example game after its last mainline move has been deleted.\<close>

definition shortened_game :: Game where
  "shortened_game = game (snd (deleteNode sicilian_viewer ''e4e5N3''))"

text \<open>A move 2...Nc6 to add after 2.Nf3.\<close>

definition nc6_node :: Node where
  "nc6_node = Node (Some (mkData 14 ''N6'' ''e4e5N3N6'' 4 ''Nc6'' ''b8c6'')) []"

text \<open>1.e4 with two comments, and the variation 1.d4 d5 beside the mainline 1.e4 e5.\<close>

definition commented_viewer :: PgnViewer where
  "commented_viewer =
     PgnViewer_constructor
       (Game_constructor
          (Node None [Node (Some ((mkData 1 ''e4'' ''e4'' 1 ''e4'' ''e2e4'')\<lparr>comments := [''good'', ''book'']\<rparr>)) []])
          \<lparr>result = None, comment = None\<rparr>) None"

definition d5_node :: Node where
  "d5_node = Node (Some (mkData 15 ''d5'' ''d4d5'' 2 ''d5'' ''d7d5'')) []"

definition d4_d5_node :: Node where
  "d4_d5_node = Node (Some (mkData 11 ''d4'' ''d4'' 1 ''d4'' ''d2d4'')) [d5_node]"

definition e4_e5_node :: Node where
  "e4_e5_node =
     Node (Some (mkData 1 ''e4'' ''e4'' 1 ''e4'' ''e2e4''))
       [Node (Some (mkData 2 ''e5'' ''e4e5'' 2 ''e5'' ''e7e5'')) []]"

definition two_lines_root :: Node where
  "two_lines_root = Node None [e4_e5_node, d4_d5_node]"

text \<open>The comments of the node at a path.\<close>

definition commentsAt :: "PgnViewer \<Rightarrow> string \<Rightarrow> string list option" where
  "commentsAt v p =
     (case nodeAtPathOrNull v p of
        None \<Rightarrow> None
      | Some n \<Rightarrow> map_option comments (data n))"

text \<open>
  The tree of the example game after 1...c5 has been promoted; the data of 2.Nf3 is a new
  object.
\<close>

definition promoted_root :: Node where
  "promoted_root =
     Node None
       [Node (Some (mkData 1 ''e4'' ''e4'' 1 ''e4'' ''e2e4''))
          [c5_node,
           Node (Some (mkData 2 ''e5'' ''e4e5'' 2 ''e5'' ''e7e5''))
             [Node (Some ((mkData 5 ''N3'' ''e4e5N3'' 3 ''Nf3'' ''g1f3'')
                            \<lparr>comments := [''Result: 1-0'']\<rparr>)) []]]]"

text \<open>The example game with a comment on 1.e4.\<close>

definition hi_viewer :: PgnViewer where
  "hi_viewer =
     PgnViewer_constructor
       (Game_constructor
          (Node None
             [Node (Some ((mkData 1 ''e4'' ''e4'' 1 ''e4'' ''e2e4'')\<lparr>comments := [''hi'']\<rparr>))
                [e5_node, c5_node]])
          \<lparr>result = Some ''1-0'', comment = None\<rparr>) None"

section \<open>Facts about the primitives\<close>

lemma slice_0_2: "slice s 0 (Some 2) = take 2 s"
  by (simp add: slice_def Let_def min_def)

lemma slice_2: "slice s 2 None = drop 2 s"
  by (simp add: slice_def Let_def min_def)

lemma slice_0_m2: "slice s 0 (Some (- 2)) = take (length s - 2) s"
  by (simp add: slice_def Let_def max_def nat_diff_distrib')

lemma slice_m2: "slice s (- 2) None = drop (length s - 2) s"
  by (simp add: slice_def Let_def max_def nat_diff_distrib')

lemma head_take: "head p = take 2 p"
  by (simp add: head_def slice_0_2)

lemma tail_drop: "tail p = drop 2 p"
  by (simp add: tail_def slice_2)

lemma path_foldl_append:
  "path (foldl Path_append p ids) = path p @ concat ids"
  by (induction ids arbitrary: p) (simp_all add: Path_append_def)

lemma length_concat_ids:
  "\<forall>i\<in>set ids. length i = 2 \<Longrightarrow> length (concat ids) = 2 * length ids"
  by (induction ids) simp_all

lemma path_funpow_tail: "path ((Path_tail ^^ n) p) = drop (2 * n) (path p)"
  by (induction n arbitrary: p) (simp_all add: Path_tail_def slice_2 add.commute)

lemma path_funpow_init: "path ((Path_init ^^ n) p) = take (length (path p) - 2 * n) (path p)"
proof (induction n)
  case 0
  show ?case by simp
next
  case (Suc n)
  have "min (length (path p)) (length (path p) - 2 * n) - 2 = length (path p) - Suc (Suc (2 * n))"
    by arith
  with Suc show ?case
    by (simp add: Path_init_def slice_0_m2 min.absorb2)
qed

section \<open>Path round trip\<close>

text \<open>
  Claim C9. Appending a two-character identifier and then taking \<open>init\<close> gives the path
  back; after appending \<open>n\<close> two-character identifiers to the root, \<open>n\<close> applications of
  \<open>tail\<close> (and also of \<open>init\<close>) give the root; \<open>init\<close> and \<open>tail\<close> of the root are the
  root, so stepping to the parent never underflows.
\<close>

theorem Path_round_trip:
  "(length i = 2 \<longrightarrow>
      Path_init (Path_append p i) = p \<and> Path_equals (Path_init (Path_append p i)) p) \<and>
   ((\<forall>i\<in>set ids. length i = 2) \<longrightarrow>
      (Path_tail ^^ length ids) (foldl Path_append Path_root ids) = Path_root \<and>
      (Path_init ^^ length ids) (foldl Path_append Path_root ids) = Path_root) \<and>
   Path_init Path_root = Path_root \<and> Path_tail Path_root = Path_root \<and>
   (Path_init ^^ n) Path_root = Path_root \<and> (Path_tail ^^ n) Path_root = Path_root"
proof -
  have a: "length i = 2 \<Longrightarrow> Path_init (Path_append p i) = p"
    by (cases p) (simp add: Path_init_def Path_append_def slice_0_m2)
  have b: "(Path_tail ^^ length ids) (foldl Path_append Path_root ids) = Path_root"
    if "\<forall>i\<in>set ids. length i = 2"
    using length_concat_ids [OF that]
    by (simp add: Path.expand path_funpow_tail path_foldl_append Path_root_def)
  have c: "(Path_init ^^ length ids) (foldl Path_append Path_root ids) = Path_root"
    if "\<forall>i\<in>set ids. length i = 2"
    using length_concat_ids [OF that]
    by (simp add: Path.expand path_funpow_init path_foldl_append Path_root_def)
  have d: "(Path_init ^^ n) Path_root = Path_root" "(Path_tail ^^ n) Path_root = Path_root"
    by (simp_all add: Path.expand path_funpow_init path_funpow_tail Path_root_def)
  have e: "Path_init Path_root = Path_root" "Path_tail Path_root = Path_root"
    by (simp_all add: Path_init_def Path_tail_def Path_root_def slice_0_m2 slice_2)
  from a have a': "length i = 2 \<Longrightarrow> Path_equals (Path_init (Path_append p i)) p"
    by (simp add: Path_equals_def)
  from a a' b c d e show ?thesis by blast
qed

theorem Path_round_trip_witness:
  "length ''zz'' = 2 \<and> Path_init (Path_append (Path ''xy'') ''zz'') = Path ''xy'' \<and>
   Path_equals (Path_init (Path_append (Path ''xy'') ''zz'')) (Path ''xy'') \<and>
   list_all (\<lambda>i. length i = 2) [''ab'', ''cd'', ''ef''] \<and>
   (Path_tail ^^ 3) (foldl Path_append Path_root [''ab'', ''cd'', ''ef'']) = Path_root \<and>
   (Path_init ^^ 3) (foldl Path_append Path_root [''ab'', ''cd'', ''ef'']) = Path_root"
  using Path_round_trip [of "''zz''" "Path ''xy''" "[''ab'', ''cd'', ''ef'']" 0]
  by (simp add: numeral_3_eq_3 Path_equals_def)

section \<open>Lookups and writes along a path\<close>

lemma findIndex_SomeD:
  "findIndex P xs = Some k \<Longrightarrow> k < length xs \<and> P (xs ! k) \<and> (\<forall>j<k. \<not> P (xs ! j))"
proof (induction xs arbitrary: k)
  case Nil
  then show ?case by simp
next
  case (Cons x xs)
  show ?case
  proof (cases "P x")
    case True
    with Cons.prems show ?thesis by simp
  next
    case False
    with Cons.prems obtain k' where k': "findIndex P xs = Some k'" "k = Suc k'"
      by auto
    from Cons.IH [OF k'(1)] False k'(2) show ?thesis
      by (auto simp: less_Suc_eq_0_disj)
  qed
qed

lemma findIndex_None_iff: "findIndex P xs = None \<longleftrightarrow> (\<forall>x\<in>set xs. \<not> P x)"
  by (induction xs) auto

lemma findIndex_first:
  "k < length xs \<Longrightarrow> P (xs ! k) \<Longrightarrow> \<forall>j<k. \<not> P (xs ! j) \<Longrightarrow> findIndex P xs = Some k"
proof (induction xs arbitrary: k)
  case Nil
  then show ?case by simp
next
  case (Cons x xs)
  show ?case
  proof (cases k)
    case 0
    with Cons.prems show ?thesis by simp
  next
    case (Suc k')
    with Cons.prems have "\<not> P x" by auto
    moreover from Suc Cons.prems have "findIndex P xs = Some k'"
      by (intro Cons.IH) auto
    ultimately show ?thesis using Suc by simp
  qed
qed

lemma find_findIndex: "find P xs = map_option (nth xs) (findIndex P xs)"
  by (induction xs) (auto simp: option.map_comp comp_def)

lemma childById_findIndex:
  "childById node i =
     map_option (nth (children node)) (findIndex (\<lambda>child. data_id child = Some i) (children node))"
  by (simp add: childById_def find_findIndex)

lemma nodeAtPathFrom_eq: "nodeAtPathFrom node (Path p) = nodeAtPathOrNullFrom node p"
proof (induction node p rule: nodeAtPathOrNullFrom.induct)
  case (1 node p)
  show ?case
  proof (cases "p = []")
    case True
    then show ?thesis
      by (simp add: nodeAtPathFrom.simps nodeAtPathOrNullFrom.simps Path_empty_def)
  next
    case False
    show ?thesis
      using False 1
      by (subst nodeAtPathFrom.simps, subst nodeAtPathOrNullFrom.simps)
         (simp add: Path_empty_def Path_head_def Path_tail_def head_def tail_def
               split: option.splits)
  qed
qed

lemma nodeAt_append:
  "even (length p) \<Longrightarrow> length i = 2 \<Longrightarrow>
   nodeAtPathOrNullFrom node (p @ i) =
     (case nodeAtPathOrNullFrom node p of None \<Rightarrow> None | Some m \<Rightarrow> childById m i)"
proof (induction node p rule: nodeAtPathOrNullFrom.induct)
  case (1 node p)
  show ?case
  proof (cases "p = []")
    case True
    with "1.prems" have "i \<noteq> []" "head i = i" "tail i = []"
      by (auto simp: head_take tail_drop)
    with True show ?thesis
      by (simp add: nodeAtPathOrNullFrom.simps [of node i] nodeAtPathOrNullFrom.simps [of _ "[]"]
               split: option.splits)
  next
    case False
    with "1.prems" have len: "2 \<le> length p"
      by (cases p; cases "tl p") auto
    then have h: "head (p @ i) = head p" "tail (p @ i) = tail p @ i" "even (length (tail p))"
      using "1.prems" by (auto simp: head_take tail_drop)
    show ?thesis
    proof (cases "childById node (head p)")
      case None
      with False h show ?thesis
        by (simp add: nodeAtPathOrNullFrom.simps [of node "p @ i"] nodeAtPathOrNullFrom.simps [of node p])
    next
      case (Some child)
      from "1.IH" [OF False Some h(3) "1.prems"(2)] False h Some show ?thesis
        by (simp add: nodeAtPathOrNullFrom.simps [of node "p @ i"] nodeAtPathOrNullFrom.simps [of node p])
    qed
  qed
qed

lemma writeAtPathFrom_None_iff:
  "writeAtPathFrom node p f = None \<longleftrightarrow> nodeAtPathOrNullFrom node p = None"
proof (induction node p rule: nodeAtPathOrNullFrom.induct)
  case (1 node p)
  show ?case
  proof (cases "p = []")
    case True
    then show ?thesis
      by (simp add: writeAtPathFrom.simps nodeAtPathOrNullFrom.simps)
  next
    case False
    show ?thesis
    proof (cases "findIndex (\<lambda>child. data_id child = Some (head p)) (children node)")
      case None
      with False show ?thesis
        by (simp add: writeAtPathFrom.simps [of node p] nodeAtPathOrNullFrom.simps [of node p]
              childById_findIndex)
    next
      case (Some k)
      then have c: "childById node (head p) = Some (children node ! k)"
        by (simp add: childById_findIndex)
      from "1.IH" [OF False c] False Some c show ?thesis
        by (auto simp: writeAtPathFrom.simps [of node p] nodeAtPathOrNullFrom.simps [of node p]
              split: option.splits)
    qed
  qed
qed

lemma writeAtPathFrom_data:
  "writeAtPathFrom node p f = Some node' \<Longrightarrow> (\<And>m. data (f m) = data m) \<Longrightarrow> data node' = data node"
  by (subst (asm) writeAtPathFrom.simps) (auto split: if_splits option.splits)

lemma findIndex_list_update:
  assumes "findIndex P xs = Some k" and "P y"
  shows "findIndex P (xs[k := y]) = Some k"
proof -
  from findIndex_SomeD [OF assms(1)] have "k < length xs" "\<forall>j<k. \<not> P (xs ! j)" by auto
  then show ?thesis using assms(2) by (intro findIndex_first) auto
qed

lemma nodeAt_writeAtPathFrom:
  assumes "\<And>m. data (f m) = data m"
  shows "nodeAtPathOrNullFrom node p = Some target \<Longrightarrow> writeAtPathFrom node p f = Some node' \<Longrightarrow>
         nodeAtPathOrNullFrom node' p = Some (f target)"
proof (induction node p arbitrary: node' rule: nodeAtPathOrNullFrom.induct)
  case (1 node p)
  show ?case
  proof (cases "p = []")
    case True
    with "1.prems" show ?thesis
      by (simp add: writeAtPathFrom.simps nodeAtPathOrNullFrom.simps)
  next
    case False
    from "1.prems"(2) False obtain k child' where
      k: "findIndex (\<lambda>child. data_id child = Some (head p)) (children node) = Some k"
      and w: "writeAtPathFrom (children node ! k) (tail p) f = Some child'"
      and n': "node' = Node (data node) ((children node)[k := child'])"
      by (subst (asm) writeAtPathFrom.simps) (auto split: option.splits)
    have c: "childById node (head p) = Some (children node ! k)"
      using k by (simp add: childById_findIndex)
    from "1.prems"(1) False c have t: "nodeAtPathOrNullFrom (children node ! k) (tail p) = Some target"
      by (subst (asm) nodeAtPathOrNullFrom.simps) simp
    have ih: "nodeAtPathOrNullFrom child' (tail p) = Some (f target)"
      by (rule "1.IH" [OF False c t w])
    have d: "data_id child' = Some (head p)"
      using writeAtPathFrom_data [OF w assms] findIndex_SomeD [OF k] by (simp add: data_id_def)
    have "findIndex (\<lambda>child. data_id child = Some (head p)) ((children node)[k := child']) = Some k"
      by (rule findIndex_list_update [OF k d])
    moreover have "k < length (children node)" using findIndex_SomeD [OF k] by simp
    ultimately have "childById node' (head p) = Some child'"
      by (simp add: childById_findIndex n')
    with False ih show ?thesis
      by (subst nodeAtPathOrNullFrom.simps) simp
  qed
qed

section \<open>Inserting a node\<close>

lemma nodeAtPathOrNull_set_moves [simp]:
  "nodeAtPathOrNull (set_moves v t) p = nodeAtPathOrNullFrom t p"
  by (simp add: nodeAtPathOrNull_def set_moves_def)

lemma set_moves_same [simp]: "set_moves v (moves (game v)) = v"
  by (simp add: set_moves_def)

lemma moves_set_moves [simp]: "moves (game (set_moves v t)) = t"
  by (simp add: set_moves_def)

lemma mainline_set_moves [simp]: "mainline (game (set_moves v t)) = mainline (game v)"
  by (simp add: set_moves_def)

lemma set_moves_set_moves [simp]: "set_moves (set_moves v s) t = set_moves v t"
  by (simp add: set_moves_def)

lemma updateAt_resolved:
  assumes "nodeAtPathOrNull v p = Some node"
  shows "\<exists>t. writeAtPathFrom (moves (game v)) p f = Some t \<and>
             updateAt v p f = (Some (f node), set_moves v t)"
proof -
  from assms have "writeAtPathFrom (moves (game v)) p f \<noteq> None"
    by (simp add: writeAtPathFrom_None_iff nodeAtPathOrNull_def)
  then obtain t where "writeAtPathFrom (moves (game v)) p f = Some t" by auto
  with assms show ?thesis by (simp add: updateAt_def)
qed

lemma updateAt_unresolved:
  "nodeAtPathOrNull v p = None \<Longrightarrow> updateAt v p f = (None, v)"
  by (simp add: updateAt_def)

lemma childById_pushed:
  assumes "childById parent i = None" and "data_id node = Some i"
  shows "childById (Node (data parent) (children parent @ [node])) i = Some node"
proof -
  have "find P (xs @ [y]) = Some y" if "find P xs = None" "P y" for P :: "Node \<Rightarrow> bool" and xs y
    using that by (induction xs) (auto split: if_splits)
  with assms show ?thesis by (simp add: childById_def)
qed



lemma addNode_unfold:
  "data_id node = Some i \<Longrightarrow>
   addNode v node parentPath =
     (case nodeAtPathOrNull v (parentPath @ i) of
        Some existing \<Rightarrow> (Some (parentPath @ i), v)
      | None \<Rightarrow>
          (case updateAt v parentPath (\<lambda>parent. Node (data parent) (children parent @ [node])) of
             (None, v') \<Rightarrow> (None, v')
           | (Some updated, v') \<Rightarrow> (Some (parentPath @ i), v')))"
  by (simp add: addNode_def Let_def)

text \<open>
  Claim C5. For a node with a two-character identifier and a resolvable parent path made
  of two-character identifiers (a path of even length): when the parent already has a
  child with the identifier, \<open>addNode\<close> returns the path of that child and leaves the
  viewer as it is; otherwise it appends the node as the last child of the parent and
  returns the new path. In both cases a second call with the same node and parent returns
  the same path and changes nothing, so the number of children of the parent stays the
  same.
\<close>

theorem addNode_idempotent:
  assumes "data_id node = Some i" and "length i = 2" and "even (length parentPath)"
    and "nodeAtPathOrNull v parentPath = Some parent"
  shows "(childById parent i \<noteq> None \<longrightarrow> addNode v node parentPath = (Some (parentPath @ i), v)) \<and>
         (childById parent i = None \<longrightarrow>
            (\<exists>t. addNode v node parentPath = (Some (parentPath @ i), set_moves v t) \<and>
                 nodeAtPathOrNullFrom t parentPath =
                   Some (Node (data parent) (children parent @ [node])))) \<and>
         (\<exists>v1. addNode v node parentPath = (Some (parentPath @ i), v1) \<and>
               addNode v1 node parentPath = (Some (parentPath @ i), v1))"
proof -
  let ?push = "\<lambda>parent. Node (data parent) (children parent @ [node])"
  have look: "nodeAtPathOrNull v (parentPath @ i) = childById parent i"
    using assms(4) nodeAt_append [OF assms(3) assms(2), of "moves (game v)"]
    by (simp add: nodeAtPathOrNull_def)
  have found: "addNode v node parentPath = (Some (parentPath @ i), v)"
    if "childById parent i = Some c" for c
    by (simp add: addNode_unfold [OF assms(1)] look that)
  have pushed: "\<exists>t. addNode v node parentPath = (Some (parentPath @ i), set_moves v t) \<and>
                    nodeAtPathOrNullFrom t parentPath = Some (?push parent) \<and>
                    addNode (set_moves v t) node parentPath = (Some (parentPath @ i), set_moves v t)"
    if none: "childById parent i = None"
  proof -
    from updateAt_resolved [OF assms(4), of ?push] obtain t where
      t: "writeAtPathFrom (moves (game v)) parentPath ?push = Some t"
         "updateAt v parentPath ?push = (Some (?push parent), set_moves v t)"
      by auto
    have r: "nodeAtPathOrNullFrom t parentPath = Some (?push parent)"
    proof (rule nodeAt_writeAtPathFrom [OF _ _ t(1)])
      show "data (?push m) = data m" for m by simp
      show "nodeAtPathOrNullFrom (moves (game v)) parentPath = Some parent"
        using assms(4) by (simp add: nodeAtPathOrNull_def)
    qed
    have a: "addNode v node parentPath = (Some (parentPath @ i), set_moves v t)"
      by (simp add: addNode_unfold [OF assms(1)] look none t(2))
    have "nodeAtPathOrNull (set_moves v t) (parentPath @ i) = Some node"
      using r nodeAt_append [OF assms(3) assms(2), of t] childById_pushed [OF none assms(1)]
      by simp
    then have "addNode (set_moves v t) node parentPath = (Some (parentPath @ i), set_moves v t)"
      by (simp add: addNode_unfold [OF assms(1)])
    with a r show ?thesis by blast
  qed
  show ?thesis
  proof (cases "childById parent i")
    case None
    from pushed [OF None] obtain t where
      "addNode v node parentPath = (Some (parentPath @ i), set_moves v t)"
      "nodeAtPathOrNullFrom t parentPath = Some (?push parent)"
      "addNode (set_moves v t) node parentPath = (Some (parentPath @ i), set_moves v t)"
      by blast
    with None show ?thesis by blast
  next
    case (Some c)
    from found [OF Some] Some show ?thesis by simp
  qed
qed

theorem addNode_idempotent_witness:
  "data_id d4_node = Some ''d4'' \<and> length ''d4'' = 2 \<and> even (length ([] :: string)) \<and>
   nodeAtPathOrNull sicilian_viewer [] = Some sicilian_root \<and>
   childById sicilian_root ''d4'' = None \<and>
   (\<exists>t. addNode sicilian_viewer d4_node [] = (Some ''d4'', set_moves sicilian_viewer t) \<and>
        nodeAtPathOrNullFrom t [] = Some (Node None [e4_node, d4_node])) \<and>
   (\<exists>v1. addNode sicilian_viewer d4_node [] = (Some ''d4'', v1) \<and>
         addNode v1 d4_node [] = (Some ''d4'', v1)) \<and>
   data_id e4_node = Some ''e4'' \<and> childById sicilian_root ''e4'' = Some e4_node \<and>
   addNode sicilian_viewer e4_node [] = (Some ''e4'', sicilian_viewer) \<and>
   data_id nc6_node = Some ''N6'' \<and> length ''N6'' = 2 \<and> even (length ''e4e5N3'') \<and>
   nodeAtPathOrNull sicilian_viewer ''e4e5N3'' = Some nf3_node \<and>
   childById nf3_node ''N6'' = None \<and>
   fst (addNode sicilian_viewer nc6_node ''e4e5N3'') = Some ''e4e5N3N6'' \<and>
   addNode (snd (addNode sicilian_viewer nc6_node ''e4e5N3'')) nc6_node ''e4e5N3'' =
     (Some ''e4e5N3N6'', snd (addNode sicilian_viewer nc6_node ''e4e5N3''))"
proof -
  have h: "data_id d4_node = Some ''d4''" "length ''d4'' = 2" "even (length ([] :: string))"
    "nodeAtPathOrNull sicilian_viewer [] = Some sicilian_root"
    by (simp_all add: d4_node_def data_id_def mkData_def nodeAtPathOrNull_def
          nodeAtPathOrNullFrom.simps sicilian_viewer_def PgnViewer_constructor_def
          Game_constructor_def)
  have c: "childById sicilian_root ''d4'' = None"
    by (simp add: childById_def sicilian_root_def e4_node_def data_id_def mkData_def)
  have h': "data_id e4_node = Some ''e4''" "length ''e4'' = 2"
    by (simp_all add: e4_node_def data_id_def mkData_def)
  have c': "childById sicilian_root ''e4'' = Some e4_node"
    by (simp add: childById_def sicilian_root_def e4_node_def data_id_def mkData_def)
  have g: "data_id nc6_node = Some ''N6''" "length ''N6'' = 2" "even (length ''e4e5N3'')"
    by (simp_all add: nc6_node_def data_id_def mkData_def)
  have g4: "nodeAtPathOrNull sicilian_viewer ''e4e5N3'' = Some nf3_node"
    by code_simp
  have gc: "childById nf3_node ''N6'' = None"
    by code_simp
  from addNode_idempotent [OF g g4] gc
  have deep: "fst (addNode sicilian_viewer nc6_node ''e4e5N3'') = Some ''e4e5N3N6'' \<and>
      addNode (snd (addNode sicilian_viewer nc6_node ''e4e5N3'')) nc6_node ''e4e5N3'' =
        (Some ''e4e5N3N6'', snd (addNode sicilian_viewer nc6_node ''e4e5N3''))"
    by auto
  from addNode_idempotent [OF h] addNode_idempotent [OF h' h(3) h(4)] h c h' c' g g4 gc deep
  show ?thesis by (simp add: sicilian_root_def)
qed

section \<open>Inserting a sequence of nodes\<close>

lemma addNode_None:
  "fst (addNode v node p) = None \<Longrightarrow> addNode v node p = (None, v) \<and> nodeAtPathOrNull v p = None"
  by (auto simp: addNode_def Let_def updateAt_def writeAtPathFrom_None_iff nodeAtPathOrNull_def
           split: option.splits prod.splits)

lemma addNode_fails_iff:
  "fst (addNode v node p) = None \<longleftrightarrow>
     nodeAtPathOrNull v p = None \<and>
     nodeAtPathOrNull v (p @ (case data_id node of None \<Rightarrow> [] | Some i \<Rightarrow> i)) = None"
  by (auto simp: addNode_def Let_def updateAt_def writeAtPathFrom_None_iff nodeAtPathOrNull_def
           split: option.splits prod.splits)

lemma addNodes_append:
  "addNodes v ns1 p = (Some p1, v1) \<Longrightarrow> addNodes v (ns1 @ rest) p = addNodes v1 rest p1"
proof (induction ns1 arbitrary: v p)
  case Nil
  then show ?case by simp
next
  case (Cons n ns1)
  obtain r v' where a: "addNode v n p = (r, v')" by (cases "addNode v n p")
  show ?case
  proof (cases r)
    case None
    with a Cons.prems show ?thesis by simp
  next
    case (Some np)
    with a Cons.prems have ne: "np \<noteq> []" and rest: "addNodes v' ns1 np = (Some p1, v1)"
      by (auto split: if_splits)
    from Cons.IH [OF rest] a Some ne show ?thesis by simp
  qed
qed

text \<open>
  Claim C6. \<open>addNodes\<close> folds \<open>addNode\<close> over the nodes and passes each returned
  path on as the next parent. When the inserts of a first part of the sequence have
  succeeded and the next insert fails (it returns no path, and then its parent does not
  resolve), \<open>addNodes\<close> stops and returns \<open>undefined\<close>, and the viewer is the one that
  the successful inserts have produced: they are not rolled back.
\<close>

theorem addNodes_no_rollback:
  assumes "addNodes v ns1 p = (Some p1, v1)" and "fst (addNode v1 n p1) = None"
  shows "addNodes v (ns1 @ n # ns2) p = (None, v1) \<and> nodeAtPathOrNull v1 p1 = None \<and>
         addNodes v [] p = (Some p, v) \<and>
         (addNode v n0 p = (Some p0, v0) \<and> p0 \<noteq> [] \<longrightarrow>
            addNodes v (n0 # ns0) p = addNodes v0 ns0 p0)"
proof -
  from addNode_None [OF assms(2)] have f: "addNode v1 n p1 = (None, v1)" "nodeAtPathOrNull v1 p1 = None"
    by simp_all
  have "addNodes v (ns1 @ n # ns2) p = addNodes v1 (n # ns2) p1"
    by (rule addNodes_append [OF assms(1)])
  with f show ?thesis by simp
qed

lemma addNodes_abc: "addNodes sicilian_viewer [abc_node] [] = (Some ''abc'', set_moves sicilian_viewer (Node None [e4_node, abc_node]))"
  by (simp add: addNode_def Let_def updateAt_def nodeAtPathOrNull_def nodeAtPathOrNullFrom.simps
        writeAtPathFrom.simps abc_node_def data_id_def mkData_def sicilian_viewer_def sicilian_root_def
        PgnViewer_constructor_def Game_constructor_def head_take tail_drop childById_def e4_node_def set_moves_def)

lemma addNode_de_fails: "fst (addNode (set_moves sicilian_viewer (Node None [e4_node, abc_node])) de_node ''abc'') = None"
  by (simp add: addNode_def Let_def updateAt_def nodeAtPathOrNull_def nodeAtPathOrNullFrom.simps
        writeAtPathFrom.simps abc_node_def de_node_def data_id_def mkData_def sicilian_viewer_def sicilian_root_def
        PgnViewer_constructor_def Game_constructor_def head_take tail_drop childById_def e4_node_def set_moves_def)

theorem addNodes_no_rollback_witness:
  "addNodes sicilian_viewer [abc_node] [] =
     (Some ''abc'', set_moves sicilian_viewer (Node None [e4_node, abc_node])) \<and>
   fst (addNode (set_moves sicilian_viewer (Node None [e4_node, abc_node])) de_node ''abc'') = None \<and>
   addNodes sicilian_viewer [abc_node, de_node, d4_node] [] =
     (None, set_moves sicilian_viewer (Node None [e4_node, abc_node])) \<and>
   nodeAtPathOrNull (set_moves sicilian_viewer (Node None [e4_node, abc_node])) ''abc'' = None \<and>
   addNodes sicilian_viewer [] ''zz'' = (Some ''zz'', sicilian_viewer) \<and>
   fst (addNode sicilian_viewer d4_node ''zz'') = None \<and>
   addNodes sicilian_viewer [d4_node, nc6_node] ''zz'' = (None, sicilian_viewer)"
proof -
  have a: "addNodes sicilian_viewer [] ''zz'' = (Some ''zz'', sicilian_viewer)"
    by simp
  have b: "fst (addNode sicilian_viewer d4_node ''zz'') = None"
    by code_simp
  from addNodes_no_rollback [OF addNodes_abc addNode_de_fails, of "[d4_node]"]
    addNodes_no_rollback [OF a b, of "[nc6_node]"] addNodes_abc addNode_de_fails a b
  show ?thesis by simp
qed

section \<open>Cursor boundaries\<close>

text \<open>
  The lookup of the game descends the tree: the root path gives the root, and a path
  that ends with a two-character identifier gives the child with that identifier of the
  node at the path before it.
\<close>

lemma nodeAt_root: "nodeAt g Path_root = Some (moves g)"
  by (simp add: nodeAt_def Path_root_def nodeAtPathFrom.simps Path_empty_def)

lemma nodeAt_step:
  "even (length p) \<Longrightarrow> length i = 2 \<Longrightarrow>
   nodeAt g (Path (p @ i)) = (case nodeAt g (Path p) of None \<Rightarrow> None | Some m \<Rightarrow> childById m i)"
  by (simp add: nodeAt_def nodeAtPathFrom_eq nodeAt_append)

text \<open>
  Claim C7. \<open>canGoTo\<close> for \<open>prev\<close> and \<open>first\<close> is true exactly when the current path
  is not the root; for \<open>next\<close> and \<open>last\<close> it is true exactly when the current node has
  a child. The current node is the node that the current path addresses in the tree: the
  root for the root path, and for a path that ends with a two-character identifier the
  child with that identifier of the node at the path before it (the root when there is no
  such node).
\<close>

theorem canGoTo_boundaries:
  "canGoTo v To_prev = (path_v v \<noteq> Path_root) \<and>
   canGoTo v To_first = (path_v v \<noteq> Path_root) \<and>
   canGoTo v To_next = (children (curNode v) \<noteq> []) \<and>
   canGoTo v To_last = (children (curNode v) \<noteq> []) \<and>
   (path_v v = Path_root \<longrightarrow> curNode v = moves (game v)) \<and>
   (path_v v = Path (p @ i) \<and> even (length p) \<and> length i = 2 \<and>
    nodeAt (game v) (Path p) = Some parent \<and> childById parent i = Some n \<longrightarrow>
      curNode v = n \<and> canGoTo v To_next = (children n \<noteq> []) \<and>
      canGoTo v To_last = (children n \<noteq> []) \<and> canGoTo v To_prev \<and> canGoTo v To_first) \<and>
   (path_v v = Path (p @ i) \<and> even (length p) \<and> length i = 2 \<and>
    (nodeAt (game v) (Path p) = None \<or>
     nodeAt (game v) (Path p) = Some parent \<and> childById parent i = None) \<longrightarrow>
      curNode v = moves (game v))"
proof -
  have a: "canGoTo v To_prev = (path_v v \<noteq> Path_root)"
    "canGoTo v To_first = (path_v v \<noteq> Path_root)"
    "canGoTo v To_next = (children (curNode v) \<noteq> [])"
    "canGoTo v To_last = (children (curNode v) \<noteq> [])"
    by (cases "path_v v"; auto simp: canGoTo_def Path_empty_def Path_root_def split: list.splits)+
  have r: "curNode v = moves (game v)" if "path_v v = Path_root"
    using that by (simp add: curNode_def nodeAt_root)
  have s: "curNode v = n"
    if "path_v v = Path (p @ i)" "even (length p)" "length i = 2"
      "nodeAt (game v) (Path p) = Some parent" "childById parent i = Some n"
    using that by (simp add: curNode_def nodeAt_step)
  have ne: "path_v v \<noteq> Path_root" if "path_v v = Path (p @ i)" "length i = 2"
    using that by (auto simp: Path_root_def)
  have u: "curNode v = moves (game v)"
    if "path_v v = Path (p @ i)" "even (length p)" "length i = 2"
      "nodeAt (game v) (Path p) = None \<or>
       nodeAt (game v) (Path p) = Some parent \<and> childById parent i = None"
    using that by (auto simp: curNode_def nodeAt_step)
  have t: "curNode v = n \<and> canGoTo v To_next = (children n \<noteq> []) \<and>
      canGoTo v To_last = (children n \<noteq> []) \<and> canGoTo v To_prev \<and> canGoTo v To_first"
    if h: "path_v v = Path (p @ i) \<and> even (length p) \<and> length i = 2 \<and>
      nodeAt (game v) (Path p) = Some parent \<and> childById parent i = Some n"
  proof -
    from h have "curNode v = n" by (intro s) simp_all
    moreover from h have "path_v v \<noteq> Path_root" by (intro ne) simp_all
    ultimately show ?thesis by (simp add: a)
  qed
  have u': "curNode v = moves (game v)"
    if h: "path_v v = Path (p @ i) \<and> even (length p) \<and> length i = 2 \<and>
      (nodeAt (game v) (Path p) = None \<or>
       nodeAt (game v) (Path p) = Some parent \<and> childById parent i = None)"
    using h by (intro u) simp_all
  have I1: "path_v v = Path_root \<longrightarrow> curNode v = moves (game v)"
    using r by blast
  have I2: "path_v v = Path (p @ i) \<and> even (length p) \<and> length i = 2 \<and>
      nodeAt (game v) (Path p) = Some parent \<and> childById parent i = Some n \<longrightarrow>
      curNode v = n \<and> canGoTo v To_next = (children n \<noteq> []) \<and>
      canGoTo v To_last = (children n \<noteq> []) \<and> canGoTo v To_prev \<and> canGoTo v To_first"
    using t by blast
  have I3: "path_v v = Path (p @ i) \<and> even (length p) \<and> length i = 2 \<and>
      (nodeAt (game v) (Path p) = None \<or>
       nodeAt (game v) (Path p) = Some parent \<and> childById parent i = None) \<longrightarrow>
      curNode v = moves (game v)"
    using u' by blast
  show ?thesis
    by (intro conjI) (rule a I1 I2 I3)+
qed

theorem canGoTo_boundaries_witness:
  "path_v (toPath sicilian_viewer (Path ''e4c5'')) = Path (''e4'' @ ''c5'') \<and>
   even (length ''e4'') \<and> length ''c5'' = 2 \<and>
   nodeAt (game (toPath sicilian_viewer (Path ''e4c5''))) (Path ''e4'') = Some e4_node \<and>
   childById e4_node ''c5'' = Some c5_node \<and> children c5_node = [] \<and>
   curNode (toPath sicilian_viewer (Path ''e4c5'')) = c5_node \<and>
   \<not> canGoTo (toPath sicilian_viewer (Path ''e4c5'')) To_next \<and>
   \<not> canGoTo (toPath sicilian_viewer (Path ''e4c5'')) To_last \<and>
   canGoTo (toPath sicilian_viewer (Path ''e4c5'')) To_prev \<and>
   canGoTo (toPath sicilian_viewer (Path ''e4c5'')) To_first \<and>
   childById e4_node ''e5'' = Some e5_node \<and> children e5_node = [nf3_node] \<and>
   curNode (toPath sicilian_viewer (Path ''e4e5'')) = e5_node \<and>
   canGoTo (toPath sicilian_viewer (Path ''e4e5'')) To_next \<and>
   canGoTo (toPath sicilian_viewer (Path ''e4e5'')) To_last \<and>
   canGoTo (toPath sicilian_viewer (Path ''e4e5'')) To_prev \<and>
   path_v sicilian_viewer = Path_root \<and> curNode sicilian_viewer = sicilian_root \<and>
   \<not> canGoTo sicilian_viewer To_prev \<and> \<not> canGoTo sicilian_viewer To_first \<and>
   canGoTo sicilian_viewer To_next \<and> canGoTo sicilian_viewer To_last \<and>
   childById e4_node ''zz'' = None \<and>
   curNode (toPath sicilian_viewer (Path ''e4zz'')) = sicilian_root \<and>
   canGoTo (toPath sicilian_viewer (Path ''e4zz'')) To_prev"
proof -
  let ?c = "toPath sicilian_viewer (Path ''e4c5'')"
  let ?e = "toPath sicilian_viewer (Path ''e4e5'')"
  let ?z = "toPath sicilian_viewer (Path ''e4zz'')"
  have pc: "path_v ?c = Path (''e4'' @ ''c5'')" "path_v ?e = Path (''e4'' @ ''e5'')"
    "path_v ?z = Path (''e4'' @ ''zz'')" "path_v sicilian_viewer = Path_root"
    by (simp_all add: toPath_def sicilian_viewer_def PgnViewer_constructor_def)
  have len: "even (length ''e4'')" "length ''c5'' = 2" "length ''e5'' = 2" "length ''zz'' = 2"
    by simp_all
  have par: "nodeAt (game ?c) (Path ''e4'') = Some e4_node"
    "nodeAt (game ?e) (Path ''e4'') = Some e4_node"
    "nodeAt (game ?z) (Path ''e4'') = Some e4_node"
    by code_simp+
  have ch: "childById e4_node ''c5'' = Some c5_node" "childById e4_node ''e5'' = Some e5_node"
    "childById e4_node ''zz'' = None"
    by code_simp+
  have kids: "children c5_node = []" "children e5_node = [nf3_node]"
    "moves (game sicilian_viewer) = sicilian_root" "children sicilian_root = [e4_node]"
    "moves (game ?z) = sicilian_root"
    by (simp_all add: c5_node_def e5_node_def sicilian_viewer_def PgnViewer_constructor_def
          Game_constructor_def sicilian_root_def toPath_def)
  from canGoTo_boundaries [of ?c "''e4''" "''c5''" e4_node c5_node]
    canGoTo_boundaries [of ?e "''e4''" "''e5''" e4_node e5_node]
    canGoTo_boundaries [of ?z "''e4''" "''zz''" e4_node c5_node]
    canGoTo_boundaries [of sicilian_viewer "[]" "[]" e4_node c5_node]
    pc len par ch kids
  show ?thesis
    by (auto simp: Path_root_def)
qed

section \<open>The path at a mainline ply\<close>

lemma mainline_resolves:
  "mainline_paths_ok pre node \<Longrightarrow> k < length (Node_mainline node) \<Longrightarrow>
   \<exists>d q. Node_mainline node ! k = Some d \<and> path_m d = Path (pre @ q) \<and>
         nodeAtPathOrNullFrom node q \<noteq> None"
proof (induction pre node arbitrary: k rule: mainline_paths_ok.induct)
  case (1 pre d)
  then show ?case by simp
next
  case (2 pre d c cs)
  from "2.prems"(1) obtain m i where
    m: "data c = Some m" "id_m m = Some i" "length i = 2" "path_m m = Path (pre @ i)"
    and ok: "mainline_paths_ok (pre @ i) c"
    by (auto split: option.splits)
  have cb: "childById (Node d (c # cs)) i = Some c"
    using m by (simp add: childById_def data_id_def)
  have hi: "i \<noteq> []" "head i = i" "tail i = []"
    using m(3) by (auto simp: head_take tail_drop)
  show ?case
  proof (cases k)
    case 0
    have "nodeAtPathOrNullFrom (Node d (c # cs)) i = Some c"
      using cb hi by (simp add: nodeAtPathOrNullFrom.simps [of _ i] nodeAtPathOrNullFrom.simps [of _ "[]"])
    with 0 m show ?thesis by auto
  next
    case (Suc k')
    with "2.prems"(2) have "k' < length (Node_mainline c)" by simp
    from "2.IH" [OF m(1) m(2) ok this] obtain d' q where
      q: "Node_mainline c ! k' = Some d'" "path_m d' = Path ((pre @ i) @ q)"
         "nodeAtPathOrNullFrom c q \<noteq> None"
      by blast
    have "head (i @ q) = i" "tail (i @ q) = q" "i @ q \<noteq> []"
      using m(3) hi by (auto simp: head_take tail_drop)
    then have "nodeAtPathOrNullFrom (Node d (c # cs)) (i @ q) = nodeAtPathOrNullFrom c q"
      using cb hi(1) by (simp add: nodeAtPathOrNullFrom.simps [of _ "i @ q"])
    with q Suc show ?thesis by (intro exI [of _ d'] exI [of _ "i @ q"]) simp
  qed
qed

lemma pathAtMainlinePly_cases:
  "pathAtMainlinePly g a = Path_root \<or>
   (\<exists>k < length (mainline g). pathAtMainlinePly g a = pathOrRoot (mainline g ! k))"
proof -
  let ?n = "int (length (mainline g))"
  let ?i = "max 0 (min (?n - 1) (case a of Ply_last \<Rightarrow> 9999 | Ply k \<Rightarrow> k - 1))"
  show ?thesis
  proof (cases "a \<noteq> Ply 0 \<and> ?i < ?n")
    case True
    then have "nat ?i < length (mainline g)" by linarith
    moreover from True have "pathAtMainlinePly g a = pathOrRoot (mainline g ! nat ?i)"
      by (simp add: pathAtMainlinePly_def Let_def)
    ultimately show ?thesis by blast
  next
    case False
    then have "pathAtMainlinePly g a = Path_root"
      by (auto simp: pathAtMainlinePly_def Let_def)
    then show ?thesis by simp
  qed
qed

lemma pathAtMainlinePly_resolves:
  assumes "mainline_paths_ok [] (moves g)" and "mainline g = Node_mainline (moves g)"
  shows "nodeAt g (pathAtMainlinePly g a) \<noteq> None"
proof -
  have root: "nodeAt g Path_root \<noteq> None"
    by (simp add: nodeAt_def Path_root_def nodeAtPathFrom.simps Path_empty_def)
  from pathAtMainlinePly_cases [of g a] show ?thesis
  proof
    assume "pathAtMainlinePly g a = Path_root"
    with root show ?thesis by simp
  next
    assume "\<exists>k<length (mainline g). pathAtMainlinePly g a = pathOrRoot (mainline g ! k)"
    then obtain k where k: "k < length (Node_mainline (moves g))"
      "pathAtMainlinePly g a = pathOrRoot (Node_mainline (moves g) ! k)"
      using assms(2) by auto
    from mainline_resolves [OF assms(1) k(1)] obtain d q where
      "Node_mainline (moves g) ! k = Some d" "path_m d = Path q"
      "nodeAtPathOrNullFrom (moves g) q \<noteq> None"
      by auto
    with k(2) show ?thesis
      by (simp add: pathOrRoot_def nodeAt_def nodeAtPathFrom_eq)
  qed
qed

text \<open>
  Claim C10, amended. \<open>pathAtMainlinePly\<close> always returns a path. For 0 it is the root;
  for an empty cached mainline it is the root; for a ply from 1 to the length of the cached
  mainline it is the path of the entry at index ply - 1; for a greater ply it is the path
  of the last entry; for \<open>last\<close> it is the path of the entry at index 9999 when the
  cached mainline has more than 10000 entries and of the last entry otherwise. The path
  resolves in the tree when the cached mainline is the first-child chain of the tree and
  the paths of that chain are built from two-character identifiers.
\<close>

theorem pathAtMainlinePly_clamps:
  "pathAtMainlinePly g (Ply 0) = Path_root \<and>
   (mainline g = [] \<longrightarrow> pathAtMainlinePly g a = Path_root) \<and>
   (1 \<le> k \<and> k \<le> int (length (mainline g)) \<longrightarrow>
      pathAtMainlinePly g (Ply k) = pathOrRoot (mainline g ! nat (k - 1))) \<and>
   (mainline g \<noteq> [] \<and> int (length (mainline g)) < k \<longrightarrow>
      pathAtMainlinePly g (Ply k) = pathOrRoot (last (mainline g))) \<and>
   (mainline g \<noteq> [] \<and> length (mainline g) \<le> 10000 \<longrightarrow>
      pathAtMainlinePly g Ply_last = pathOrRoot (last (mainline g))) \<and>
   (10000 < length (mainline g) \<longrightarrow>
      pathAtMainlinePly g Ply_last = pathOrRoot (mainline g ! 9999)) \<and>
   (mainline_paths_ok [] (moves g) \<and> mainline g = Node_mainline (moves g) \<longrightarrow>
      nodeAt g (pathAtMainlinePly g a) \<noteq> None)"
proof -
  have a: "pathAtMainlinePly g (Ply 0) = Path_root"
    by (simp add: pathAtMainlinePly_def)
  have b: "pathAtMainlinePly g a = Path_root" if "mainline g = []"
    using that by (simp add: pathAtMainlinePly_def Let_def)
  have c: "pathAtMainlinePly g (Ply k) = pathOrRoot (mainline g ! nat (k - 1))"
    if "1 \<le> k \<and> k \<le> int (length (mainline g))"
  proof -
    from that have "max 0 (min (int (length (mainline g)) - 1) (k - 1)) = k - 1" by linarith
    moreover from that have "mainline g \<noteq> []" by auto
    ultimately show ?thesis using that by (simp add: pathAtMainlinePly_def Let_def)
  qed
  have d: "pathAtMainlinePly g (Ply k) = pathOrRoot (last (mainline g))"
    if "mainline g \<noteq> [] \<and> int (length (mainline g)) < k"
  proof -
    from that have l: "0 < length (mainline g)" by simp
    with that have "max 0 (min (int (length (mainline g)) - 1) (k - 1)) = int (length (mainline g)) - 1"
      by linarith
    moreover from l have "nat (int (length (mainline g)) - 1) = length (mainline g) - 1" by linarith
    ultimately show ?thesis
      using that l by (simp add: pathAtMainlinePly_def Let_def last_conv_nth)
  qed
  have e: "pathAtMainlinePly g Ply_last = pathOrRoot (last (mainline g))"
    if "mainline g \<noteq> [] \<and> length (mainline g) \<le> 10000"
  proof -
    from that have l: "0 < length (mainline g)" by simp
    with that have "max 0 (min (int (length (mainline g)) - 1) 9999) = int (length (mainline g)) - 1"
      by linarith
    moreover from l have "nat (int (length (mainline g)) - 1) = length (mainline g) - 1" by linarith
    ultimately show ?thesis
      using that l by (simp add: pathAtMainlinePly_def Let_def last_conv_nth)
  qed
  have f: "pathAtMainlinePly g Ply_last = pathOrRoot (mainline g ! 9999)"
    if "10000 < length (mainline g)"
  proof -
    from that have "max 0 (min (int (length (mainline g)) - 1) 9999) = 9999" by linarith
    moreover from that have "mainline g \<noteq> []" by auto
    ultimately show ?thesis using that by (simp add: pathAtMainlinePly_def Let_def)
  qed
  from a b c d e f pathAtMainlinePly_resolves [of g a] show ?thesis by blast
qed


lemma sicilian_game:
  "game sicilian_viewer = \<lparr>moves = sicilian_root, metadata = \<lparr>result = Some ''1-0'', comment = None\<rparr>,
     mainline = [data e4_node, data e5_node, data nf3_node]\<rparr>"
  by (simp add: sicilian_viewer_def PgnViewer_constructor_def Game_constructor_def
        sicilian_root_def e4_node_def e5_node_def nf3_node_def)

lemma sicilian_paths_ok: "mainline_paths_ok [] sicilian_root"
  by (simp add: sicilian_root_def e4_node_def e5_node_def nf3_node_def mkData_def)

lemma length_repeated_aa: "length (repeated_aa n) = 2 * n"
  by (induction n) simp_all

lemma mainline_line_below:
  "Node_mainline (Node d (line_below n pre)) =
     map (\<lambda>k. Some (mkData (length pre div 2 + k + 1) ''aa'' (pre @ repeated_aa (Suc k))
                       (length pre div 2 + k + 1) ''Nf3'' ''g1f3'')) [0..<n]"
proof (induction n arbitrary: pre d)
  case 0
  show ?case by simp
next
  case (Suc n)
  have "map (\<lambda>k. Some (mkData (length pre div 2 + k + 1) ''aa'' (pre @ repeated_aa (Suc k))
                       (length pre div 2 + k + 1) ''Nf3'' ''g1f3'')) [0..<Suc n]
        = Some (mkData (length pre div 2 + 1) ''aa'' (pre @ ''aa'') (length pre div 2 + 1) ''Nf3'' ''g1f3'') #
          map (\<lambda>k. Some (mkData (length (pre @ ''aa'') div 2 + k + 1) ''aa'' ((pre @ ''aa'') @ repeated_aa (Suc k))
                       (length (pre @ ''aa'') div 2 + k + 1) ''Nf3'' ''g1f3'')) [0..<n]"
    by (simp add: upt_conv_Cons map_Suc_upt [symmetric] del: upt_Suc)
  with Suc [of "Some (mkData (length pre div 2 + 1) ''aa'' (pre @ ''aa'') (length pre div 2 + 1) ''Nf3'' ''g1f3'')" "pre @ ''aa''"]
  show ?case by simp
qed

lemma long_game_mainline:
  "mainline long_game =
     map (\<lambda>k. Some (mkData (k + 1) ''aa'' (repeated_aa (Suc k)) (k + 1) ''Nf3'' ''g1f3'')) [0..<10001]"
  using mainline_line_below [of None 10001 "[]"]
  by (simp add: long_game_def Game_constructor_def)

lemma long_game_last:
  "pathAtMainlinePly long_game Ply_last = Path (repeated_aa 10000)"
proof -
  have "pathAtMainlinePly long_game Ply_last = pathOrRoot (mainline long_game ! 9999)"
    by (simp add: pathAtMainlinePly_def Let_def long_game_mainline)
  moreover have "Suc 9999 = 10000" by simp
  ultimately show ?thesis
    by (simp add: long_game_mainline pathOrRoot_def mkData_def del: repeated_aa.simps)
qed

lemma long_game_final:
  "pathOrRoot (last (mainline long_game)) = Path (repeated_aa 10001)"
proof -
  have "Suc 10000 = 10001" by simp
  then show ?thesis
    by (simp add: long_game_mainline pathOrRoot_def mkData_def last_map del: repeated_aa.simps)
qed

theorem pathAtMainlinePly_clamps_witness:
  "mainline (game sicilian_viewer) \<noteq> [] \<and> length (mainline (game sicilian_viewer)) \<le> 10000 \<and>
   (1::int) \<le> 2 \<and> 2 \<le> int (length (mainline (game sicilian_viewer))) \<and>
   int (length (mainline (game sicilian_viewer))) < 7 \<and>
   mainline_paths_ok [] (moves (game sicilian_viewer)) \<and>
   mainline (game sicilian_viewer) = Node_mainline (moves (game sicilian_viewer)) \<and>
   pathAtMainlinePly (game sicilian_viewer) (Ply 2) = Path ''e4e5'' \<and>
   pathAtMainlinePly (game sicilian_viewer) (Ply 7) = Path ''e4e5N3'' \<and>
   pathAtMainlinePly (game sicilian_viewer) Ply_last = Path ''e4e5N3'' \<and>
   nodeAt (game sicilian_viewer) (pathAtMainlinePly (game sicilian_viewer) Ply_last) \<noteq> None \<and>
   10000 < length (mainline long_game) \<and>
   pathAtMainlinePly long_game Ply_last = Path (repeated_aa 10000) \<and>
   mainline (Game_constructor (Node None []) \<lparr>result = None, comment = None\<rparr>) = [] \<and>
   pathAtMainlinePly (Game_constructor (Node None []) \<lparr>result = None, comment = None\<rparr>) Ply_last
     = Path_root"
proof -
  let ?g = "game sicilian_viewer"
  let ?e = "Game_constructor (Node None []) \<lparr>result = None, comment = None\<rparr>"
  have h1: "mainline ?g \<noteq> [] \<and> length (mainline ?g) \<le> 10000"
    by (simp add: sicilian_game)
  have h2: "(1::int) \<le> 2 \<and> 2 \<le> int (length (mainline ?g))"
    by (simp add: sicilian_game)
  have h3: "mainline_paths_ok [] (moves ?g) \<and> mainline ?g = Node_mainline (moves ?g)"
    using sicilian_paths_ok
    by (simp add: sicilian_game) (simp add: sicilian_root_def e4_node_def e5_node_def nf3_node_def)
  have h4: "int (length (mainline ?g)) < 7"
    by (simp add: sicilian_game)
  have v2: "pathOrRoot (mainline ?g ! nat (2 - 1)) = Path ''e4e5''"
    by (simp add: sicilian_game pathOrRoot_def e5_node_def mkData_def)
  have v3: "pathOrRoot (last (mainline ?g)) = Path ''e4e5N3''"
    by (simp add: sicilian_game pathOrRoot_def nf3_node_def mkData_def)
  have l1: "10000 < length (mainline long_game)"
    by (simp add: long_game_mainline)
  have "Suc 9999 = 10000" by simp
  then have l2: "pathOrRoot (mainline long_game ! 9999) = Path (repeated_aa 10000)"
    by (simp add: long_game_mainline pathOrRoot_def mkData_def del: repeated_aa.simps)
  have e1: "mainline ?e = []"
    by (simp add: Game_constructor_def)
  from pathAtMainlinePly_clamps [of ?g Ply_last 2] pathAtMainlinePly_clamps [of ?g Ply_last 7]
    pathAtMainlinePly_clamps [of long_game Ply_last 0] pathAtMainlinePly_clamps [of ?e Ply_last 0]
    h1 h2 h3 h4 v2 v3 l1 l2 e1
  show ?thesis
    by auto
qed

lemma shortened_game_last:
  "pathAtMainlinePly shortened_game Ply_last = Path ''e4e5N3'' \<and>
   nodeAt shortened_game (Path ''e4e5N3'') = None"
  by code_simp

text \<open>
  Claim C10 as stated fails: in a game of 10001 moves \<open>last\<close> does not give the path of
  the final mainline node, and after the last mainline move of the example game has been
  deleted \<open>last\<close> gives a path that does not resolve.
\<close>

theorem pathAtMainlinePly_counterexample:
  "length (mainline long_game) = 10001 \<and>
   pathAtMainlinePly long_game Ply_last \<noteq> pathOrRoot (last (mainline long_game)) \<and>
   nodeAt shortened_game (pathAtMainlinePly shortened_game Ply_last) = None"
proof -
  have "length (repeated_aa 10000) \<noteq> length (repeated_aa 10001)"
    by (simp only: length_repeated_aa)
  then have "repeated_aa 10000 \<noteq> repeated_aa 10001" by metis
  then have "pathAtMainlinePly long_game Ply_last \<noteq> pathOrRoot (last (mainline long_game))"
    by (simp only: long_game_last long_game_final Path.inject not_False_eq_True)
  moreover have "length (mainline long_game) = 10001"
    by (simp add: long_game_mainline)
  ultimately show ?thesis
    using shortened_game_last by simp
qed

section \<open>The cached mainline\<close>










text \<open>
  The cached objects are the objects of the tree: promoting 1...c5 in the example game
  with a comment on 1.e4 empties the comments of the cached object of 1.e4, which is on
  the new mainline. The cached object of 2.Nf3 is the old one, without the comment
  \<open>Result: 1-0\<close> that the new data object of the node carries.
\<close>

lemma promoteVariation_cached_comments:
  "map (map_option comments) (mainline (game hi_viewer)) = [Some [''hi''], Some [], Some []] \<and>
   map (map_option comments) (mainline (game (snd (promoteVariation hi_viewer ''e4c5'')))) =
     [Some [], Some [], Some []] \<and>
   map (map_option obj) (mainline (game (snd (promoteVariation hi_viewer ''e4c5'')))) =
     [Some 1, Some 2, Some 3] \<and>
   map (map_option obj) (Node_mainline (moves (game (snd (promoteVariation hi_viewer ''e4c5''))))) =
     [Some 1, Some 4] \<and>
   map_option obj (data (Node_end (moves (game (snd (promoteVariation hi_viewer ''e4e5'')))))) =
     Some 5 \<and>
   commentsAt (snd (promoteVariation hi_viewer ''e4c5'')) ''e4e5N3'' = Some [''Result: 1-0'']"
  by code_simp


section \<open>Deleting a node\<close>

text \<open>
  When the node at a path along first children loses all its children, it becomes the
  end of the mainline.
\<close>

lemma firstChildRoute_end:
  "firstChildRoute node pp \<Longrightarrow> pp \<noteq> [] \<Longrightarrow> nodeAtPathOrNullFrom node pp = Some parent \<Longrightarrow>
   writeAtPathFrom node pp f = Some node' \<Longrightarrow> children (f parent) = [] \<Longrightarrow>
   data (f parent) = data parent \<Longrightarrow>
   Node_mainline node' \<noteq> [] \<and> last (Node_mainline node') = data parent"
proof (induction node pp arbitrary: node' rule: nodeAtPathOrNullFrom.induct)
  case (1 node p)
  from "1.prems"(1,2) obtain c cs where
    ch: "children node = c # cs" and ci: "data_id c = Some (head p)"
    and route: "firstChildRoute c (tail p)"
    by (subst (asm) firstChildRoute.simps) (auto split: list.splits)
  have k: "findIndex (\<lambda>child. data_id child = Some (head p)) (children node) = Some 0"
    using ch ci by simp
  have cb: "childById node (head p) = Some c"
    using ch ci by (simp add: childById_def)
  from "1.prems"(3) "1.prems"(2) cb have t: "nodeAtPathOrNullFrom c (tail p) = Some parent"
    by (subst (asm) nodeAtPathOrNullFrom.simps) simp
  from "1.prems"(4) "1.prems"(2) k ch obtain c' where
    w: "writeAtPathFrom c (tail p) f = Some c'" and n': "node' = Node (data node) (c' # cs)"
    by (subst (asm) writeAtPathFrom.simps) (auto split: option.splits)
  show ?case
  proof (cases "tail p = []")
    case True
    with t w have "parent = c" "c' = f c"
      by (simp_all add: nodeAtPathOrNullFrom.simps writeAtPathFrom.simps)
    with n' "1.prems"(5,6) show ?thesis
      by (cases "f c") simp
  next
    case False
    from "1.IH" [OF "1.prems"(2) cb route False t w "1.prems"(5,6)]
    have "Node_mainline c' \<noteq> [] \<and> last (Node_mainline c') = data parent" .
    with n' show ?thesis by simp
  qed
qed

lemma lastOf_ofOption: "xs \<noteq> [] \<Longrightarrow> lastOf xs = ofOption (last xs)"
  by (cases xs) (simp_all add: lastOf_def ofOption_def)

lemma lastOf_not_Null: "lastOf xs \<noteq> Null"
  by (auto simp: lastOf_def split: list.splits option.splits)

lemma splice1_nat: "k < length xs \<Longrightarrow> splice1 xs (int k) = take k xs @ drop (Suc k) xs"
  by (simp add: splice1_def Let_def)

text \<open>
  Claim C4, amended. For a path of even length with at least one identifier: when the
  path does not resolve, \<open>deleteNode\<close> returns \<open>null\<close> and changes nothing; when it
  resolves, the node is the first child of its parent with the last identifier of the
  path, \<open>deleteNode\<close> removes it with its subtree from the child list of the parent and
  returns a value that is not \<open>null\<close>. The value is not the data of the removed node but,
  as the source says, that of the last node before the deleted one: when the removed node
  was the only child of a node of the mainline, the data of that parent (\<open>undefined\<close>
  when the parent is the root).
\<close>

theorem deleteNode_removes:
  assumes "even (length p)" and "2 \<le> length p"
  shows "(nodeAtPathOrNull v p = None \<longrightarrow> deleteNode v p = (Null, v)) \<and>
         (nodeAtPathOrNull v p = Some n \<longrightarrow>
            (\<exists>parent k t r.
               nodeAtPathOrNull v (slice p 0 (Some (- 2))) = Some parent \<and>
               findIndex (\<lambda>child. data_id child = Some (slice p (- 2) None)) (children parent) = Some k \<and>
               k < length (children parent) \<and> children parent ! k = n \<and>
               deleteNode v p = (r, set_moves v t) \<and> r \<noteq> Null \<and>
               nodeAtPathOrNullFrom t (slice p 0 (Some (- 2))) =
                 Some (Node (data parent) (take k (children parent) @ drop (Suc k) (children parent))) \<and>
               (firstChildRoute (moves (game v)) (slice p 0 (Some (- 2))) \<and> children parent = [n] \<longrightarrow>
                  r = (if length p = 2 then Undefined else ofOption (data parent)))))"
proof -
  let ?pp = "slice p 0 (Some (- 2))"
  let ?i = "slice p (- 2) None"
  let ?P = "\<lambda>child. data_id child = Some ?i"
  have split: "p = ?pp @ ?i" "even (length ?pp)" "length ?i = 2"
    using assms by (auto simp: slice_0_m2 slice_m2)
  have pp_Nil: "?pp = [] \<longleftrightarrow> length p = 2"
    using assms by (auto simp: slice_0_m2)
  have look: "nodeAtPathOrNull v p =
              (case nodeAtPathOrNull v ?pp of None \<Rightarrow> None | Some m \<Rightarrow> childById m ?i)"
    using nodeAt_append [OF split(2) split(3), of "moves (game v)"] split(1)
    by (simp add: nodeAtPathOrNull_def)
  show ?thesis
  proof (cases "nodeAtPathOrNull v ?pp")
    case None
    with look show ?thesis by (simp add: deleteNode_def)
  next
    case (Some parent)
    show ?thesis
    proof (cases "findIndex ?P (children parent)")
      case None
      with Some look show ?thesis by (simp add: deleteNode_def childById_findIndex)
    next
      case k: (Some k)
      let ?del = "\<lambda>n. Node (data n) (splice1 (children n) (int k))"
      from findIndex_SomeD [OF k] have kl: "k < length (children parent)" by simp
      have par: "nodeAtPathOrNullFrom (moves (game v)) ?pp = Some parent"
        using Some by (simp add: nodeAtPathOrNull_def)
      then have "writeAtPathFrom (moves (game v)) ?pp ?del \<noteq> None"
        by (simp add: writeAtPathFrom_None_iff)
      then obtain t where t: "writeAtPathFrom (moves (game v)) ?pp ?del = Some t" by auto
      have r: "nodeAtPathOrNullFrom t ?pp = Some (?del parent)"
      proof (rule nodeAt_writeAtPathFrom [OF _ par t])
        show "data (?del m) = data m" for m by simp
      qed
      from kl r have r': "nodeAtPathOrNullFrom t ?pp =
          Some (Node (data parent) (take k (children parent) @ drop (Suc k) (children parent)))"
        by (simp add: splice1_nat)
      have d: "deleteNode v p = (lastOf (Node_mainline t), set_moves v t)"
        using Some k t by (simp add: deleteNode_def)
      have n: "nodeAtPathOrNull v p = Some (children parent ! k)"
        using look Some k by (simp add: childById_findIndex)
      have design: "lastOf (Node_mainline t) = (if length p = 2 then Undefined else ofOption (data parent))"
        if route: "firstChildRoute (moves (game v)) ?pp" and only: "children parent = [children parent ! k]"
      proof -
        from only have len1: "length (children parent) = Suc 0"
          by (metis length_Cons list.size(3))
        with kl have k0: "k = 0" by simp
        from len1 k0 have emp: "children (?del parent) = []"
          by (simp add: splice1_def Let_def)
        show ?thesis
        proof (cases "length p = 2")
          case True
          with pp_Nil have e: "?pp = []" by simp
          with par t have "t = ?del parent"
            by (simp add: nodeAtPathOrNullFrom.simps writeAtPathFrom.simps)
          with emp True show ?thesis
            by (cases parent) (simp add: lastOf_def)
        next
          case False
          with pp_Nil have ne: "?pp \<noteq> []" by simp
          have "Node_mainline t \<noteq> [] \<and> last (Node_mainline t) = data parent"
            by (rule firstChildRoute_end [OF route ne par t emp]) simp
          with False show ?thesis by (simp add: lastOf_ofOption)
        qed
      qed
      have ex: "\<exists>parent k t r.
               nodeAtPathOrNull v ?pp = Some parent \<and>
               findIndex ?P (children parent) = Some k \<and>
               k < length (children parent) \<and> children parent ! k = n \<and>
               deleteNode v p = (r, set_moves v t) \<and> r \<noteq> Null \<and>
               nodeAtPathOrNullFrom t ?pp =
                 Some (Node (data parent) (take k (children parent) @ drop (Suc k) (children parent))) \<and>
               (firstChildRoute (moves (game v)) ?pp \<and> children parent = [n] \<longrightarrow>
                  r = (if length p = 2 then Undefined else ofOption (data parent)))"
        if res: "nodeAtPathOrNull v p = Some n"
      proof -
        from res n have nk: "children parent ! k = n" by simp
        have "firstChildRoute (moves (game v)) ?pp \<and> children parent = [n] \<longrightarrow>
              lastOf (Node_mainline t) = (if length p = 2 then Undefined else ofOption (data parent))"
          using design nk by simp
        with Some k kl nk d r' lastOf_not_Null [of "Node_mainline t"] show ?thesis
          by (intro exI [of _ parent] exI [of _ k] exI [of _ t]
                exI [of _ "lastOf (Node_mainline t)"]) simp
      qed
      from n have "nodeAtPathOrNull v p \<noteq> None" by simp
      with ex show ?thesis by blast
    qed
  qed
qed

theorem deleteNode_removes_witness:
  "even (length ''e4e5N3'') \<and> 2 \<le> length ''e4e5N3'' \<and>
   nodeAtPathOrNull sicilian_viewer ''e4e5N3'' = Some nf3_node \<and>
   nodeAtPathOrNull sicilian_viewer ''e4e5'' = Some e5_node \<and>
   firstChildRoute (moves (game sicilian_viewer)) ''e4e5'' \<and>
   children e5_node = [nf3_node] \<and>
   (\<exists>t. deleteNode sicilian_viewer ''e4e5N3'' = (ofOption (data e5_node), set_moves sicilian_viewer t) \<and>
        nodeAtPathOrNullFrom t ''e4e5'' = Some (Node (data e5_node) [])) \<and>
   nodeAtPathOrNull sicilian_viewer ''e4d5'' = None \<and>
   deleteNode sicilian_viewer ''e4d5'' = (Null, sicilian_viewer) \<and>
   nodeAtPathOrNull commented_viewer ''e4'' = Some (hd (children (moves (game commented_viewer)))) \<and>
   children (moves (game commented_viewer)) = [hd (children (moves (game commented_viewer)))] \<and>
   firstChildRoute (moves (game commented_viewer)) [] \<and>
   fst (deleteNode commented_viewer ''e4'') = Undefined"
proof -
  have h: "even (length ''e4e5N3'')" "2 \<le> length ''e4e5N3''" by simp_all
  have r: "nodeAtPathOrNull sicilian_viewer ''e4e5N3'' = Some nf3_node" by code_simp
  have sl: "slice ''e4e5N3'' 0 (Some (- 2)) = ''e4e5''" by (simp add: slice_0_m2)
  have pe: "nodeAtPathOrNull sicilian_viewer ''e4e5'' = Some e5_node" by code_simp
  have fr: "firstChildRoute (moves (game sicilian_viewer)) ''e4e5''" by code_simp
  have ks: "children e5_node = [nf3_node]" by (simp add: e5_node_def)
  have h': "even (length ''e4d5'')" "2 \<le> length ''e4d5''" by simp_all
  have r': "nodeAtPathOrNull sicilian_viewer ''e4d5'' = None" by code_simp
  from deleteNode_removes [OF h, of sicilian_viewer nf3_node] r sl obtain parent k t res where
    p: "nodeAtPathOrNull sicilian_viewer ''e4e5'' = Some parent"
    and k: "k < length (children parent)"
    and d: "deleteNode sicilian_viewer ''e4e5N3'' = (res, set_moves sicilian_viewer t)"
    and n: "nodeAtPathOrNullFrom t ''e4e5'' =
              Some (Node (data parent) (take k (children parent) @ drop (Suc k) (children parent)))"
    and g: "firstChildRoute (moves (game sicilian_viewer)) ''e4e5'' \<and> children parent = [nf3_node] \<longrightarrow>
              res = (if length ''e4e5N3'' = 2 then Undefined else ofOption (data parent))"
    by auto
  from p pe have pp: "parent = e5_node" by simp
  with k ks have k0: "k = 0" by simp
  from g pp fr ks have "res = ofOption (data e5_node)" by simp
  with d n pp k0 ks have deep:
    "\<exists>t. deleteNode sicilian_viewer ''e4e5N3'' = (ofOption (data e5_node), set_moves sicilian_viewer t) \<and>
        nodeAtPathOrNullFrom t ''e4e5'' = Some (Node (data e5_node) [])"
    by auto
  let ?n = "hd (children (moves (game commented_viewer)))"
  have c1: "even (length ''e4'')" "2 \<le> length ''e4''" by simp_all
  have c2: "nodeAtPathOrNull commented_viewer ''e4'' = Some ?n" by code_simp
  have c3: "children (moves (game commented_viewer)) = [?n]" by code_simp
  have c4: "firstChildRoute (moves (game commented_viewer)) []"
    by (simp add: firstChildRoute.simps)
  have c5: "slice ''e4'' 0 (Some (- 2)) = []" by (simp add: slice_0_m2)
  have c6: "nodeAtPathOrNull commented_viewer [] = Some (moves (game commented_viewer))"
    by (simp add: nodeAtPathOrNull_def nodeAtPathOrNullFrom.simps)
  from deleteNode_removes [OF c1, of commented_viewer ?n] c2 c5 obtain parent' t' res' where
    p': "nodeAtPathOrNull commented_viewer [] = Some parent'"
    and d': "deleteNode commented_viewer ''e4'' = (res', set_moves commented_viewer t')"
    and g': "firstChildRoute (moves (game commented_viewer)) [] \<and> children parent' = [?n] \<longrightarrow>
              res' = (if length ''e4'' = 2 then Undefined else ofOption (data parent'))"
    by auto
  from p' c6 have "parent' = moves (game commented_viewer)" by simp
  with g' c3 c4 have "res' = Undefined" by simp
  with d' have top: "fst (deleteNode commented_viewer ''e4'') = Undefined" by simp
  from deep top deleteNode_removes [OF h', of sicilian_viewer nf3_node] h r pe fr ks r' c2 c3 c4
  show ?thesis by simp
qed

text \<open>
  Claim C4 as stated fails: deleting 2.Nf3, the last move of the mainline of the example
  game, returns the data of 1...e5, the node before it, and not the data of the removed
  node.
\<close>

theorem deleteNode_result_counterexample:
  "nodeAtPathOrNull sicilian_viewer ''e4e5N3'' = Some nf3_node \<and>
   data nf3_node = Some (mkData 3 ''N3'' ''e4e5N3'' 3 ''Nf3'' ''g1f3'') \<and>
   fst (deleteNode sicilian_viewer ''e4e5N3'') = Defined (mkData 2 ''e5'' ''e4e5'' 2 ''e5'' ''e7e5'') \<and>
   fst (deleteNode sicilian_viewer ''e4e5N3'') \<noteq> Defined (mkData 3 ''N3'' ''e4e5N3'' 3 ''Nf3'' ''g1f3'')"
  by code_simp

section \<open>Promotion of a variation in the example game\<close>

text \<open>
  Claim C1. In the game with mainline 1.e4 e5 2.Nf3, the variation 1.e4 c5 and the result
  1-0, promoting the node of 1...c5 raises no error and makes that node the first child
  of the node of 1.e4, so that the mainline is 1.e4 c5; the last node of the old mainline,
  2.Nf3, gets the comment \<open>Result: 1-0\<close>; the result of the game becomes \<open>*\<close> and stays
  so, since the node of 1...c5 has no child and no comment that starts with \<open>Result:\<close>.
\<close>

theorem promoteVariation_example:
  "nodeAtPathOrNull sicilian_viewer ''e4c5'' = Some c5_node \<and>
   Node_end (moves (game sicilian_viewer)) = nf3_node \<and>
   promoteVariation sicilian_viewer ''e4c5'' =
     (None,
      sicilian_viewer
        \<lparr>game := (game sicilian_viewer)
                   \<lparr>moves := promoted_root,
                    metadata := \<lparr>result = Some ''*'', comment = None\<rparr>\<rparr>,
         path_v := Path ''e4c5''\<rparr>) \<and>
   map (map_option san) (Node_mainline promoted_root) = [Some ''e4'', Some ''c5''] \<and>
   map_option (map data_id) (map_option children (nodeAtPathOrNullFrom promoted_root ''e4'')) =
     Some [Some ''c5'', Some ''e5''] \<and>
   commentsAt (snd (promoteVariation sicilian_viewer ''e4c5'')) ''e4e5N3'' = Some [''Result: 1-0''] \<and>
   result (metadata (game (snd (promoteVariation sicilian_viewer ''e4c5'')))) = Some ''*'' \<and>
   children c5_node = [] \<and> findLastNode c5_node = c5_node \<and>
   map_option comments (data c5_node) = Some []"
  by code_simp

section \<open>Comment indexes\<close>

lemma writeAtPathFrom_same:
  "nodeAtPathOrNullFrom node p = Some target \<Longrightarrow> f target = target \<Longrightarrow>
   writeAtPathFrom node p f = Some node"
proof (induction node p rule: nodeAtPathOrNullFrom.induct)
  case (1 node p)
  show ?case
  proof (cases "p = []")
    case True
    with "1.prems" show ?thesis
      by (simp add: writeAtPathFrom.simps nodeAtPathOrNullFrom.simps)
  next
    case False
    from "1.prems"(1) False obtain k where
      k: "findIndex (\<lambda>child. data_id child = Some (head p)) (children node) = Some k"
      and t: "nodeAtPathOrNullFrom (children node ! k) (tail p) = Some target"
      by (subst (asm) nodeAtPathOrNullFrom.simps)
         (auto simp: childById_findIndex split: option.splits)
    have c: "childById node (head p) = Some (children node ! k)"
      using k by (simp add: childById_findIndex)
    have "writeAtPathFrom (children node ! k) (tail p) f = Some (children node ! k)"
      by (rule "1.IH" [OF False c t "1.prems"(2)])
    with False k show ?thesis
      by (subst writeAtPathFrom.simps) (cases node, simp)
  qed
qed

text \<open>
  What holds of the claim: an index at or beyond the length leaves the viewer as it is in
  both operations, and \<open>editComment\<close> with a negative index leaves the list of comments
  (and the viewer) as it is.
\<close>

lemma comment_index_out_of_range:
  "(int (length cs) \<le> index \<longrightarrow> commentsAt v p = Some cs \<longrightarrow>
      deleteComment v p index = v \<and> editComment v p index c = v) \<and>
   (index < 0 \<longrightarrow> editComment v p index c = v)"
proof -
  have a: "deleteComment v p index = v \<and> editComment v p index c = v"
    if "int (length cs) \<le> index" "commentsAt v p = Some cs"
    using that
    by (auto simp: commentsAt_def deleteComment_def editComment_def split: option.splits)
  have b: "editComment v p index c = v" if neg: "index < 0"
  proof (cases "nodeAtPathOrNull v p")
    case None
    then show ?thesis by (simp add: editComment_def)
  next
    case (Some n)
    show ?thesis
    proof (cases "data n")
      case None
      with Some show ?thesis by (simp add: editComment_def)
    next
      case d: (Some d)
      have "set_comments (comments d) n = n"
        using d by (cases n) (simp add: set_comments_def)
      with Some have "writeAtPathFrom (moves (game v)) p (set_comments (comments d)) = Some (moves (game v))"
        by (intro writeAtPathFrom_same) (simp_all add: nodeAtPathOrNull_def)
      with Some d neg show ?thesis
        by (simp add: editComment_def set_moves_def)
    qed
  qed
  from a b show ?thesis by blast
qed

text \<open>
  Claim C8. The guard of \<open>deleteComment\<close> and \<open>editComment\<close> tests the index against
  the length of the comment list only. For a negative index \<open>deleteComment\<close> therefore
  reaches \<open>splice\<close>, which counts a negative start from the end: index -1 removes the
  last comment, and an index below minus the length removes the first one.
\<close>

theorem deleteComment_negative_index:
  "commentsAt commented_viewer ''e4'' = Some [''good'', ''book''] \<and>
   commentsAt (deleteComment commented_viewer ''e4'' (- 1)) ''e4'' = Some [''good''] \<and>
   commentsAt (deleteComment commented_viewer ''e4'' (- 5)) ''e4'' = Some [''book'']"
  by code_simp

section \<open>Variations in the serializer\<close>

text \<open>
  The serializer returns a text for every tree whose child nodes all have data.
\<close>

lemma export_total:
  "(all_children_have_data node \<longrightarrow> (\<exists>s. exportNode node forcePly = Inr s))"
  "((\<forall>c \<in> set vars. data c \<noteq> None \<and> all_children_have_data c) \<longrightarrow>
      (\<exists>r. exportVariations vars acc = Inr r))"
proof (induction node forcePly and vars acc rule: exportNode_exportVariations.induct)
  case (1 d forcePly)
  show ?case by simp
next
  case (2 d first rest forcePly)
  show ?case
  proof
    assume a: "all_children_have_data (Node d (first # rest))"
    then have r: "\<forall>c \<in> set rest. data c \<noteq> None \<and> all_children_have_data c"
      and f: "all_children_have_data first"
      by auto
    from "2.IH"(1) r obtain s where s: "exportVariations rest (firstText forcePly first) = Inr s"
      by blast
    from "2.IH"(2) [OF s] f obtain ml where "exportNode first (rest \<noteq> []) = Inr ml"
      by blast
    with s show "\<exists>s. exportNode (Node d (first # rest)) forcePly = Inr s"
      by simp
  qed
next
  case (3 acc)
  show ?case by simp
next
  case (4 child rest acc)
  show ?case
  proof
    assume a: "\<forall>c \<in> set (child # rest). data c \<noteq> None \<and> all_children_have_data c"
    then obtain cd where cd: "data child = Some cd" by auto
    from a have c: "all_children_have_data child" by simp
    from "4.IH"(1) [OF cd] c obtain v where v: "exportNode child False = Inr v" by blast
    from "4.IH"(2) [OF cd v] a cd v show "\<exists>r. exportVariations (child # rest) acc = Inr r"
      by simp
  qed
qed

lemma exportVariations_closed:
  "\<forall>c \<in> set vars. data c \<noteq> None \<and> all_children_have_data c \<Longrightarrow>
   exportVariations vars acc = Inr (acc @ concat (map variationText vars))"
proof (induction vars arbitrary: acc)
  case Nil
  show ?case by simp
next
  case (Cons child rest)
  from Cons.prems obtain cd where cd: "data child = Some cd" by auto
  from Cons.prems have "all_children_have_data child" by simp
  with export_total(1) [of child False] obtain v where v: "exportNode child False = Inr v"
    by blast
  from Cons.prems have "\<forall>c \<in> set rest. data c \<noteq> None \<and> all_children_have_data c" by simp
  from Cons.IH [OF this] cd v show ?case
    by (simp add: variationText_def)
qed

text \<open>
  Claim C3, amended. For a node with children, in a tree whose child nodes have data,
  \<open>exportNode\<close> returns the text of the first child, then for every child at index 1 or
  more, in order, its variation text, then the serialized subtree of the first child.
  The variation text (\<open>variationText\<close>) is a space and an opening parenthesis, the
  move-number prefix of the child (always written), its notation, its codes and its
  comments, then, after a space when it is not empty, the subtree of the child serialized
  with forced numbering off, then the closing parenthesis.
\<close>

theorem exportNode_variations:
  assumes "all_children_have_data (Node d (first # vars))"
  shows "\<exists>ml. exportNode first (vars \<noteq> []) = Inr ml \<and>
              exportNode (Node d (first # vars)) forcePly =
                Inr (firstText forcePly first @ concat (map variationText vars) @
                     (if ml \<noteq> [] then '' '' @ ml else []))"
proof -
  from assms have r: "\<forall>c \<in> set vars. data c \<noteq> None \<and> all_children_have_data c"
    and f: "all_children_have_data first"
    by auto
  from export_total(1) [of first "vars \<noteq> []"] f obtain ml where
    ml: "exportNode first (vars \<noteq> []) = Inr ml"
    by blast
  with exportVariations_closed [OF r, of "firstText forcePly first"] show ?thesis
    by simp
qed

lemma two_lines_data: "all_children_have_data (Node None [e4_e5_node, d4_d5_node])"
  by (simp add: e4_e5_node_def d4_d5_node_def d5_node_def)

theorem exportNode_variations_witness:
  "all_children_have_data (Node None [e4_e5_node, d4_d5_node]) \<and>
   variationText d4_d5_node = '' (1. d4 d5)'' \<and>
   exportNode e4_e5_node ([d4_d5_node] \<noteq> []) = Inr ''1... e5'' \<and>
   exportNode (Node None [e4_e5_node, d4_d5_node]) False =
     Inr (firstText False e4_e5_node @ concat (map variationText [d4_d5_node]) @ '' 1... e5'') \<and>
   exportNode (Node None [e4_e5_node, d4_d5_node]) False = Inr ''1. e4 (1. d4 d5) 1... e5''"
proof -
  have v: "variationText d4_d5_node = '' (1. d4 d5)''" by code_simp
  have m: "exportNode e4_e5_node ([d4_d5_node] \<noteq> []) = Inr ''1... e5''" by code_simp
  have f: "firstText False e4_e5_node = ''1. e4''" by code_simp
  from exportNode_variations [OF two_lines_data, of False] two_lines_data v m f
  show ?thesis by simp
qed

text \<open>
  Claim C3 as stated fails: in the tree 1.e4 e5 with the variation 1.d4 d5 the subtree of
  the variation child is written as \<open>d5\<close>, its serialization with forced numbering off,
  and not as \<open>1... d5\<close>, its serialization with forced numbering on.
\<close>

theorem exportNode_forced_counterexample:
  "exportNode two_lines_root False = Inr ''1. e4 (1. d4 d5) 1... e5'' \<and>
   data d4_d5_node = Some (mkData 11 ''d4'' ''d4'' 1 ''d4'' ''d2d4'') \<and>
   variationOpen d4_d5_node (mkData 11 ''d4'' ''d4'' 1 ''d4'' ''d2d4'') = '' (1. d4'' \<and>
   exportNode d4_d5_node False = Inr ''d5'' \<and>
   exportNode d4_d5_node True = Inr ''1... d5'' \<and>
   exportNode two_lines_root False \<noteq> Inr ''1. e4 (1. d4 1... d5) 1... e5''"
  by code_simp

end
